theory Spec2Isabelle
  imports Complex_Main "HOL-Library.Monad_Syntax"
begin

section \<open>Faults\<close>

text \<open>
  Every \<^verbatim>\<open>throw\<close> of the sources is a value of this type. The two headers under study
  throw \<^verbatim>\<open>std::runtime_error\<close> with a message; \<open>matrix_error\<close> stands for a fault reported
  by the dense-matrix collaborator (whose header is not part of the inspected sources).
\<close>

datatype error = runtime_error string | matrix_error

section \<open>The dense matrix collaborator\<close>

text \<open>
  Modelled from the spec: the class \<^verbatim>\<open>Matrix<>\<close> of \<^verbatim>\<open>Matrix.h\<close> is missing from the
  inspected sources. The spec describes it as a rows x cols grid of doubles with value
  semantics, offering a shape query, element get and set, column get and set, transpose,
  matrix multiply, addition, the identity matrix of a given size, and an inverse that is
  defined for square matrices and fails on a singular one. Doubles are modelled by the reals,
  so all arithmetic below is exact.
\<close>

record matrix =
  rows_size :: nat
  cols_size :: nat
  cells :: "real list list"

text \<open>Modelled from the spec: \<^verbatim>\<open>Matrix<>(m, n)\<close>, the m x n matrix of zeros.\<close>

definition Matrix :: "nat \<Rightarrow> nat \<Rightarrow> matrix" where
  "Matrix m n = \<lparr>rows_size = m, cols_size = n, cells = replicate m (replicate n 0)\<rparr>"

text \<open>Modelled from the spec: element get, \<^verbatim>\<open>M(i, j)\<close> read.\<close>

definition elem :: "matrix \<Rightarrow> nat \<Rightarrow> nat \<Rightarrow> real" where
  "elem M i j = cells M ! i ! j"

text \<open>Modelled from the spec: element set, \<^verbatim>\<open>M(i, j) = x\<close>.\<close>

definition set_elem :: "matrix \<Rightarrow> nat \<Rightarrow> nat \<Rightarrow> real \<Rightarrow> matrix" where
  "set_elem M i j x = M\<lparr>cells := (cells M)[i := (cells M ! i)[j := x]]\<rparr>"

text \<open>Modelled from the spec: column get, \<^verbatim>\<open>M.getCol(j)\<close>.\<close>

definition getCol :: "matrix \<Rightarrow> nat \<Rightarrow> real list" where
  "getCol M j = map (\<lambda>i. elem M i j) [0..<rows_size M]"

text \<open>Modelled from the spec: column set, \<^verbatim>\<open>M.setCol(v, j)\<close>.\<close>

definition setCol :: "matrix \<Rightarrow> real list \<Rightarrow> nat \<Rightarrow> matrix" where
  "setCol M v j = M\<lparr>cells := map (\<lambda>i. (cells M ! i)[j := v ! i]) [0..<rows_size M]\<rparr>"

text \<open>Modelled from the spec: transpose.\<close>

definition transpose_m :: "matrix \<Rightarrow> matrix" where
  "transpose_m M =
     \<lparr>rows_size = cols_size M, cols_size = rows_size M,
      cells = map (\<lambda>j. map (\<lambda>i. elem M i j) [0..<rows_size M]) [0..<cols_size M]\<rparr>"

text \<open>
  Modelled from the spec: matrix multiply. The spec does not say what the collaborator does
  when the inner dimensions differ; the model reports a matrix fault.
\<close>

definition mat_mul :: "matrix \<Rightarrow> matrix \<Rightarrow> error + matrix" where
  "mat_mul M N =
     (if cols_size M \<noteq> rows_size N then Inl matrix_error
      else Inr \<lparr>rows_size = rows_size M, cols_size = cols_size N,
                cells = map (\<lambda>i. map (\<lambda>j. \<Sum>k\<leftarrow>[0..<cols_size M]. elem M i k * elem N k j)
                                    [0..<cols_size N]) [0..<rows_size M]\<rparr>)"

text \<open>
  Modelled from the spec: addition. As for the product, a shape mismatch is reported as a
  matrix fault.
\<close>

definition mat_add :: "matrix \<Rightarrow> matrix \<Rightarrow> error + matrix" where
  "mat_add M N =
     (if rows_size M \<noteq> rows_size N \<or> cols_size M \<noteq> cols_size N then Inl matrix_error
      else Inr \<lparr>rows_size = rows_size M, cols_size = cols_size M,
                cells = map (\<lambda>i. map (\<lambda>j. elem M i j + elem N i j)
                                    [0..<cols_size M]) [0..<rows_size M]\<rparr>)"

text \<open>Modelled from the spec: the product of a matrix with a scalar, \<^verbatim>\<open>M * c\<close>.\<close>

definition mat_scale :: "matrix \<Rightarrow> real \<Rightarrow> matrix" where
  "mat_scale M c = M\<lparr>cells := map (map (\<lambda>x. x * c)) (cells M)\<rparr>"

text \<open>Modelled from the spec: \<^verbatim>\<open>Matrix<>::identity(n)\<close>.\<close>

definition identity :: "nat \<Rightarrow> matrix" where
  "identity n =
     \<lparr>rows_size = n, cols_size = n,
      cells = map (\<lambda>i. map (\<lambda>j. if i = j then 1 else 0) [0..<n]) [0..<n]\<rparr>"

text \<open>
  Modelled from the spec: the inverse, which is defined for square matrices and fails on a
  singular one. Singularity is a zero determinant; the determinant is computed by Laplace
  expansion along the first column, and the inverse is the adjugate divided by the
  determinant.
\<close>

definition del_nth :: "nat \<Rightarrow> 'a list \<Rightarrow> 'a list" where
  "del_nth i xs = take i xs @ drop (Suc i) xs"

function det_cells :: "real list list \<Rightarrow> real" where
  "det_cells [] = 1"
| "det_cells (r # rs) =
     (\<Sum>i\<leftarrow>[0..<Suc (length rs)].
        (- 1) ^ i * hd ((r # rs) ! i) * det_cells (map tl (del_nth i (r # rs))))"
  by pat_completeness auto
termination
  by (relation "measure length") (auto simp: del_nth_def)

definition minor_cells :: "real list list \<Rightarrow> nat \<Rightarrow> nat \<Rightarrow> real list list" where
  "minor_cells c i j = map (del_nth j) (del_nth i c)"

definition inverse_m :: "matrix \<Rightarrow> error + matrix" where
  "inverse_m M =
     (if rows_size M \<noteq> cols_size M then Inl matrix_error
      else if det_cells (cells M) = 0 then Inl matrix_error
      else Inr \<lparr>rows_size = rows_size M, cols_size = cols_size M,
                cells = map (\<lambda>i. map (\<lambda>j. (- 1) ^ (i + j) * det_cells (minor_cells (cells M) j i)
                                             / det_cells (cells M))
                                    [0..<cols_size M]) [0..<rows_size M]\<rparr>)"

section \<open>The QR decomposition engine (QR.h)\<close>

text \<open>
  The class holds the three private members \<^verbatim>\<open>_A\<close>, \<^verbatim>\<open>_Q\<close> and \<^verbatim>\<open>_R\<close>. An identifier
  cannot start with an underscore here, so the fields are called \<open>field_A\<close>, \<open>field_Q\<close>
  and \<open>field_R\<close>.
\<close>

record QR =
  field_A :: matrix
  field_Q :: matrix
  field_R :: matrix

text \<open>
  The constructor \<^verbatim>\<open>QR::QR(const Matrix<>&)\<close>. The members \<^verbatim>\<open>_Q\<close> and \<^verbatim>\<open>_R\<close> are
  default-constructed; following the spec ("Q/R start empty") the default matrix is the
  0 x 0 matrix.
\<close>

definition QR_new :: "matrix \<Rightarrow> error + QR" where
  "QR_new A0 =
     (if rows_size A0 < 1 \<or> cols_size A0 < 1
      then Inl (runtime_error ''Matrix should be: rows > 0 && cols > 0'')
      else Inr \<lparr>field_A = A0, field_Q = Matrix 0 0, field_R = Matrix 0 0\<rparr>)"

text \<open>The accessors \<^verbatim>\<open>A()\<close>, \<^verbatim>\<open>Q()\<close> and \<^verbatim>\<open>R()\<close>.\<close>

definition QR_A :: "QR \<Rightarrow> matrix" where
  "QR_A q = field_A q"

definition QR_Q :: "QR \<Rightarrow> matrix" where
  "QR_Q q = field_Q q"

definition QR_R :: "QR \<Rightarrow> matrix" where
  "QR_R q = field_R q"

subsection \<open>The loops over the m components of a column\<close>

text \<open>
  \<^verbatim>\<open>for (k = 0; k < m; ++k) acc += v[k] * e[k];\<close> starting from \<open>0.0\<close>
  (the projection scalar, the squared norm and the dot product of both decompositions).
\<close>

definition dot_loop :: "nat \<Rightarrow> real list \<Rightarrow> real list \<Rightarrow> real" where
  "dot_loop m v e = fold (\<lambda>k acc. acc + v ! k * e ! k) [0..<m] 0"

text \<open>\<^verbatim>\<open>for (k = 0; k < m; ++k) u[k] -= c * e[k];\<close>\<close>

definition sub_loop :: "nat \<Rightarrow> real \<Rightarrow> real list \<Rightarrow> real list \<Rightarrow> real list" where
  "sub_loop m c e u = fold (\<lambda>k w. w[k := w ! k - c * e ! k]) [0..<m] u"

text \<open>
  \<^verbatim>\<open>std::vector<double> e(m); for (k = 0; k < m; ++k) e[k] = u[k] / normVec;\<close>
\<close>

definition div_loop :: "nat \<Rightarrow> real list \<Rightarrow> real \<Rightarrow> real list" where
  "div_loop m u normVec = fold (\<lambda>k e. e[k := u ! k / normVec]) [0..<m] (replicate m 0)"

subsection \<open>The tolerance\<close>

text \<open>
  Both decompositions compare the norm of a residual with the \<^verbatim>\<open>double\<close> literal
  \<^verbatim>\<open>1e-10\<close>. The literal denotes the double nearest to one ten-billionth, which is
  \<^verbatim>\<open>0x1.b7cdfd9d7bdbbp-34\<close>, that is 7737125245533627 / 2^86, slightly above 1 / 10^10.
\<close>

definition tolerance :: real where
  "tolerance = 7737125245533627 / 2 ^ 86"

subsection \<open>Classical Gram-Schmidt\<close>

text \<open>
  The source spells the method \<^verbatim>\<open>qrCGS\<close> with a Cyrillic letter in third position; the
  name below is the ASCII spelling. The tolerance is the literal \<^verbatim>\<open>1e-10\<close>.

  Neither decomposition contains a \<^verbatim>\<open>throw\<close>, so the decompositions are modelled as total
  functions on the object. That every index stays within its bound is not taken for granted:
  the decompositions are transcribed again below with every index checked, and that
  transcription is proved never to fail.
\<close>

definition cgs_project ::
  "nat \<Rightarrow> nat \<Rightarrow> real list \<Rightarrow> matrix \<Rightarrow> nat \<Rightarrow> matrix \<times> real list \<Rightarrow> matrix \<times> real list" where
  "cgs_project m i v_i Qm j = (\<lambda>(Rm, u_i).
     let e_j = getCol Qm j;
         proj_scalar = dot_loop m v_i e_j
     in (set_elem Rm j i proj_scalar, sub_loop m proj_scalar e_j u_i))"

definition cgs_column :: "nat \<Rightarrow> nat \<Rightarrow> matrix \<Rightarrow> nat \<Rightarrow> matrix \<times> matrix \<Rightarrow> matrix \<times> matrix" where
  "cgs_column m min_mn Am i = (\<lambda>(Qm, Rm).
     let v_i = getCol Am i;
         (R1, u_i) = fold (cgs_project m i v_i Qm) [0..<min min_mn i] (Rm, v_i)
     in if i < min_mn then
          let normVec = sqrt (dot_loop m u_i u_i)
          in if normVec > tolerance
             then (setCol Qm (div_loop m u_i normVec) i, set_elem R1 i i normVec)
             else (Qm, set_elem R1 i i 0)
        else (Qm, R1))"

definition qrCGS :: "QR \<Rightarrow> QR" where
  "qrCGS q =
     (let m = rows_size (field_A q);
          n = cols_size (field_A q);
          min_mn = min m n;
          (Qm, Rm) = fold (cgs_column m min_mn (field_A q)) [0..<n]
                       (Matrix m min_mn, Matrix min_mn n)
      in q\<lparr>field_Q := Qm, field_R := Rm\<rparr>)"

text \<open>\<^verbatim>\<open>QR::qr()\<close> runs the classical Gram-Schmidt decomposition.\<close>

definition qr :: "QR \<Rightarrow> QR" where
  "qr q = qrCGS q"

subsection \<open>Modified Gram-Schmidt\<close>

definition epsilon :: real where
  "epsilon = tolerance"

definition mgs_update ::
  "nat \<Rightarrow> nat \<Rightarrow> real list \<Rightarrow> nat \<Rightarrow> matrix \<times> real list list \<Rightarrow> matrix \<times> real list list" where
  "mgs_update m j q_j k = (\<lambda>(Rm, V).
     let dotProduct = dot_loop m q_j (V ! k)
     in (set_elem Rm j k dotProduct, V[k := sub_loop m dotProduct q_j (V ! k)]))"

definition mgs_step ::
  "nat \<Rightarrow> nat \<Rightarrow> nat \<Rightarrow> matrix \<times> matrix \<times> real list list \<Rightarrow> matrix \<times> matrix \<times> real list list" where
  "mgs_step m n j = (\<lambda>(Qm, Rm, V).
     let normVec = sqrt (dot_loop m (V ! j) (V ! j));
         R1 = set_elem Rm j j normVec
     in if normVec > epsilon then
          let q_j = div_loop m (V ! j) normVec;
              Q1 = setCol Qm q_j j;
              (R2, V2) = fold (mgs_update m j q_j) [j + 1..<n] (R1, V)
          in (Q1, R2, V2)
        else
          let zero_col = replicate m 0;
              Q1 = setCol Qm zero_col j;
              R2 = fold (\<lambda>k Rk. set_elem Rk j k 0) [j + 1..<n] R1
          in (Q1, R2, V))"

definition qrMGS :: "QR \<Rightarrow> QR" where
  "qrMGS q =
     (let m = rows_size (field_A q);
          n = cols_size (field_A q);
          min_mn = min m n;
          V = fold (\<lambda>i W. W[i := getCol (field_A q) i]) [0..<n] (replicate n []);
          (Qm, Rm, V') = fold (mgs_step m n) [0..<min_mn]
                           (Matrix m min_mn, Matrix min_mn n, V)
      in q\<lparr>field_Q := Qm, field_R := Rm\<rparr>)"

subsection \<open>The decompositions in an arbitrary arithmetic\<close>












subsection \<open>What a decomposition has computed when it reaches a column\<close>







subsection \<open>The decompositions with every index checked\<close>

text \<open>
  A further transcription of the two decompositions, again statement by statement and in an
  arbitrary arithmetic, in which every index into a \<^verbatim>\<open>std::vector\<close> and every row or column
  index handed to the matrix is compared with the size of what it indexes. \<open>None\<close> stands for
  an access outside the storage (undefined behaviour for a vector, a fault or undefined
  behaviour of the matrix collaborator). \<^verbatim>\<open>setCol\<close> is also required to receive a vector with
  one component per row.
\<close>
















subsection \<open>The strategies with an empty body\<close>

text \<open>
  \<^verbatim>\<open>qrIGS\<close>, \<^verbatim>\<open>qrBGS\<close>, \<^verbatim>\<open>qrRGS\<close>, \<^verbatim>\<open>qrCGSP\<close>, \<^verbatim>\<open>qrHouseholder\<close> and \<^verbatim>\<open>qrGivens\<close> have the
  body \<^verbatim>\<open>{ }\<close>. They are modelled as fallible operations, so that raising a fault and
  returning normally are different values.
\<close>

definition qrIGS :: "QR \<Rightarrow> error + QR" where
  "qrIGS q = Inr q"

definition qrBGS :: "QR \<Rightarrow> error + QR" where
  "qrBGS q = Inr q"

definition qrRGS :: "QR \<Rightarrow> error + QR" where
  "qrRGS q = Inr q"

definition qrCGSP :: "QR \<Rightarrow> error + QR" where
  "qrCGSP q = Inr q"

definition qrHouseholder :: "QR \<Rightarrow> error + QR" where
  "qrHouseholder q = Inr q"

definition qrGivens :: "QR \<Rightarrow> error + QR" where
  "qrGivens q = Inr q"

subsection \<open>Solving and the pseudo-inverse\<close>

text \<open>
  \<^verbatim>\<open>Matrix<> Qt_b = Q().transpose() * b; Matrix<> x = (R().inverse(), Qt_b); return x;\<close>
  The initialiser of \<open>x\<close> is a comma expression: its left operand \<^verbatim>\<open>R().inverse()\<close> is
  evaluated (and may fault) and its value is discarded; the value of the expression is
  \<open>Qt_b\<close>.
\<close>

definition solve :: "QR \<Rightarrow> matrix \<Rightarrow> error + matrix" where
  "solve q b =
     (case mat_mul (transpose_m (QR_Q q)) b of
        Inl e \<Rightarrow> Inl e
      | Inr Qt_b \<Rightarrow>
          (case inverse_m (QR_R q) of
             Inl e \<Rightarrow> Inl e
           | Inr R_inv \<Rightarrow> Inr Qt_b))"

text \<open>
  \<^verbatim>\<open>Matrix<> R = (_R + Matrix<>::identity(_R.rows_size()) * 1e-8);\<close>
  \<^verbatim>\<open>Matrix<> R_inv = R.inverse(); return R_inv * _Q.transpose();\<close>
  The loop between the two statements only prints the entries of \<^verbatim>\<open>_R\<close> and is left out.
\<close>

definition pseudoInverse :: "QR \<Rightarrow> error + matrix" where
  "pseudoInverse q =
     (case mat_add (field_R q) (mat_scale (identity (rows_size (field_R q))) (1 / 10 ^ 8)) of
        Inl e \<Rightarrow> Inl e
      | Inr R \<Rightarrow>
          (case inverse_m R of
             Inl e \<Rightarrow> Inl e
           | Inr R_inv \<Rightarrow> mat_mul R_inv (transpose_m (field_Q q))))"

subsection \<open>Calls on a constructed object\<close>

text \<open>
  The member functions a caller can invoke on a constructed object, other than the copy and
  move operations (which replace the object as a whole). \<open>invoke c q\<close> is the object after
  the call \<open>c\<close>: \<^verbatim>\<open>solve\<close>, \<^verbatim>\<open>pseudoInverse\<close> and the accessors are \<^verbatim>\<open>const\<close> member
  functions and leave the object as it is, whether they return or fault.
\<close>

datatype QR_call =
    call_qr | call_qrCGS | call_qrMGS
  | call_qrIGS | call_qrBGS | call_qrRGS | call_qrCGSP | call_qrHouseholder | call_qrGivens
  | call_solve matrix | call_pseudoInverse
  | call_A | call_Q | call_R

definition after :: "error + QR \<Rightarrow> QR \<Rightarrow> QR" where
  "after r q = (case r of Inl e \<Rightarrow> q | Inr q' \<Rightarrow> q')"

fun invoke :: "QR_call \<Rightarrow> QR \<Rightarrow> QR" where
  "invoke call_qr q = qr q"
| "invoke call_qrCGS q = qrCGS q"
| "invoke call_qrMGS q = qrMGS q"
| "invoke call_qrIGS q = after (qrIGS q) q"
| "invoke call_qrBGS q = after (qrBGS q) q"
| "invoke call_qrRGS q = after (qrRGS q) q"
| "invoke call_qrCGSP q = after (qrCGSP q) q"
| "invoke call_qrHouseholder q = after (qrHouseholder q) q"
| "invoke call_qrGivens q = after (qrGivens q) q"
| "invoke (call_solve b) q = q"
| "invoke call_pseudoInverse q = q"
| "invoke call_A q = q"
| "invoke call_Q q = q"
| "invoke call_R q = q"

section \<open>Constraint residuals (ErrorFunctions.h)\<close>

text \<open>
  Modelled from the spec: the classes \<^verbatim>\<open>Variable\<close> and \<^verbatim>\<open>Function\<close> of \<^verbatim>\<open>Function.h\<close> are
  missing from the inspected sources. The spec describes a scalar unknown as a mutable
  double identified by reference identity, and an expression node as one of: a constant, a
  reference to an unknown, a unary operation (negate, sqrt), a binary operation (add,
  subtract, multiply, divide), with numeric evaluation and structural differentiation by the
  sum, product, quotient and chain rules. A \<^verbatim>\<open>Variable*\<close> is modelled by a number (the
  identity of the object), and the values the unknowns currently hold by a function from
  identities to reals.
\<close>

type_synonym Variable = nat

type_synonym valuation = "Variable \<Rightarrow> real"

datatype Function =
    Constant real
  | Unknown Variable
  | Negate Function
  | Sqrt Function
  | Add Function Function
  | Subtract Function Function
  | Multiply Function Function
  | Divide Function Function

text \<open>Modelled from the spec: \<^verbatim>\<open>Function::evaluate()\<close>, in exact real arithmetic.\<close>

fun evaluate :: "valuation \<Rightarrow> Function \<Rightarrow> real" where
  "evaluate s (Constant c) = c"
| "evaluate s (Unknown v) = s v"
| "evaluate s (Negate f) = - evaluate s f"
| "evaluate s (Sqrt f) = sqrt (evaluate s f)"
| "evaluate s (Add f g) = evaluate s f + evaluate s g"
| "evaluate s (Subtract f g) = evaluate s f - evaluate s g"
| "evaluate s (Multiply f g) = evaluate s f * evaluate s g"
| "evaluate s (Divide f g) = evaluate s f / evaluate s g"



text \<open>
  Modelled from the spec: \<^verbatim>\<open>Function::evaluate()\<close> returns a \<^verbatim>\<open>double\<close>, and a double need not
  be a number: the quotient of zero by zero is NaN, which every later operation propagates.
  \<open>evaluate_in\<close> evaluates an expression in an arbitrary arithmetic: the type \<open>'a\<close> stands for
  the doubles, \<open>const_of\<close> for the double a constant denotes, and the six operations for the
  operations on doubles. Nothing is assumed of them.
\<close>

record 'a operations =
  const_of :: "real \<Rightarrow> 'a"
  negate_of :: "'a \<Rightarrow> 'a"
  sqrt_of :: "'a \<Rightarrow> 'a"
  add_of :: "'a \<Rightarrow> 'a \<Rightarrow> 'a"
  subtract_of :: "'a \<Rightarrow> 'a \<Rightarrow> 'a"
  multiply_of :: "'a \<Rightarrow> 'a \<Rightarrow> 'a"
  divide_of :: "'a \<Rightarrow> 'a \<Rightarrow> 'a"

fun evaluate_in :: "'a operations \<Rightarrow> (Variable \<Rightarrow> 'a) \<Rightarrow> Function \<Rightarrow> 'a" where
  "evaluate_in ar s (Constant c) = const_of ar c"
| "evaluate_in ar s (Unknown v) = s v"
| "evaluate_in ar s (Negate f) = negate_of ar (evaluate_in ar s f)"
| "evaluate_in ar s (Sqrt f) = sqrt_of ar (evaluate_in ar s f)"
| "evaluate_in ar s (Add f g) = add_of ar (evaluate_in ar s f) (evaluate_in ar s g)"
| "evaluate_in ar s (Subtract f g) = subtract_of ar (evaluate_in ar s f) (evaluate_in ar s g)"
| "evaluate_in ar s (Multiply f g) = multiply_of ar (evaluate_in ar s f) (evaluate_in ar s g)"
| "evaluate_in ar s (Divide f g) = divide_of ar (evaluate_in ar s f) (evaluate_in ar s g)"

text \<open>The exact operations of the reals: with them \<open>evaluate_in\<close> is \<open>evaluate\<close>.\<close>

definition exact_operations :: "real operations" where
  "exact_operations =
     \<lparr>const_of = (\<lambda>c. c), negate_of = uminus, sqrt_of = sqrt, add_of = (+), subtract_of = (-),
      multiply_of = (*), divide_of = (/)\<rparr>"

text \<open>
  The operations of the reals made partial: \<open>None\<close> stands for what is not a number. A
  quotient by zero and the square root of a negative number are not numbers, and an operation
  on what is not a number does not give a number. Rounding and overflow are not part of this
  arithmetic.
\<close>

definition lift2 :: "(real \<Rightarrow> real \<Rightarrow> real) \<Rightarrow> real option \<Rightarrow> real option \<Rightarrow> real option" where
  "lift2 h x y =
     (case x of None \<Rightarrow> None | Some a \<Rightarrow> (case y of None \<Rightarrow> None | Some b \<Rightarrow> Some (h a b)))"

definition partial_operations :: "real option operations" where
  "partial_operations =
     \<lparr>const_of = Some,
      negate_of = (\<lambda>x. case x of None \<Rightarrow> None | Some a \<Rightarrow> Some (- a)),
      sqrt_of = (\<lambda>x. case x of None \<Rightarrow> None | Some a \<Rightarrow> if a < 0 then None else Some (sqrt a)),
      add_of = lift2 (+),
      subtract_of = lift2 (-),
      multiply_of = lift2 (*),
      divide_of = (\<lambda>x y. if y = Some 0 then None else lift2 (/) x y)\<rparr>"


text \<open>
  The class \<^verbatim>\<open>ErrorFunctions\<close>: the owned expression \<^verbatim>\<open>c_f\<close> (a pointer, \<open>None\<close> being
  \<^verbatim>\<open>nullptr\<close>, which is what the base constructor stores) and the list \<^verbatim>\<open>m_X\<close> of the
  unknowns. The member functions dereference \<^verbatim>\<open>c_f\<close>; with a null pointer that is
  undefined behaviour, modelled as the fault \<open>null_dereference\<close>.
\<close>

record ErrorFunctions =
  c_f :: "Function option"
  m_X :: "Variable list"

datatype fault = thrown error | null_dereference

definition ErrorFunctions_new :: "Variable list \<Rightarrow> ErrorFunctions" where
  "ErrorFunctions_new x = \<lparr>c_f = None, m_X = x\<rparr>"


definition ErrorFunctions_evaluate :: "ErrorFunctions \<Rightarrow> valuation \<Rightarrow> fault + real" where
  "ErrorFunctions_evaluate r s =
     (case c_f r of None \<Rightarrow> Inl null_dereference | Some f \<Rightarrow> Inr (evaluate s f))"


definition ErrorFunctions_clone :: "ErrorFunctions \<Rightarrow> fault + Function" where
  "ErrorFunctions_clone r = Inl (thrown (runtime_error ''Not implemented''))"

text \<open>
  Modelled from the spec: the constructors of \<^verbatim>\<open>PointPointDistanceError\<close> and
  \<^verbatim>\<open>PointOnPointError\<close> are declared in the header and defined in a file that is missing from
  the inspected sources. The spec gives the residual of the first as
  \<open>sqrt((x2-x1)^2 + (y2-y1)^2) - d\<close> over the unknowns \<open>x1, y1, x2, y2\<close> (in this order)
  and the target \<open>d\<close>, and the second as the first with target 0. For a list of fewer than
  four unknowns the spec only says that construction does not fault; the model then leaves
  \<^verbatim>\<open>c_f\<close> as the base constructor set it.
\<close>

fun PointPointDistanceError :: "Variable list \<Rightarrow> real \<Rightarrow> ErrorFunctions" where
  "PointPointDistanceError (x1 # y1 # x2 # y2 # xs) d =
     (ErrorFunctions_new (x1 # y1 # x2 # y2 # xs))
       \<lparr>c_f := Some (Subtract
          (Sqrt (Add (Multiply (Subtract (Unknown x2) (Unknown x1))
                               (Subtract (Unknown x2) (Unknown x1)))
                     (Multiply (Subtract (Unknown y2) (Unknown y1))
                               (Subtract (Unknown y2) (Unknown y1)))))
          (Constant d))\<rparr>"
| "PointPointDistanceError x d = ErrorFunctions_new x"

definition PointOnPointError :: "Variable list \<Rightarrow> ErrorFunctions" where
  "PointOnPointError x = PointPointDistanceError x 0"


section \<open>Notions used to state the claims\<close>

text \<open>
  A matrix value is well formed when its grid has as many rows and columns as its shape
  says; every matrix the collaborator builds is.
\<close>

definition wf_matrix :: "matrix \<Rightarrow> bool" where
  "wf_matrix M \<longleftrightarrow>
     length (cells M) = rows_size M \<and> (\<forall>r < rows_size M. length (cells M ! r) = cols_size M)"

definition has_shape :: "matrix \<Rightarrow> nat \<Rightarrow> nat \<Rightarrow> bool" where
  "has_shape M m n \<longleftrightarrow> wf_matrix M \<and> rows_size M = m \<and> cols_size M = n"

definition upper_triangular :: "matrix \<Rightarrow> bool" where
  "upper_triangular M \<longleftrightarrow> (\<forall>i<rows_size M. \<forall>j<cols_size M. j < i \<longrightarrow> elem M i j = 0)"



subsection \<open>Concrete inputs\<close>

definition one_by_one :: "real \<Rightarrow> matrix" where
  "one_by_one x = \<lparr>rows_size = 1, cols_size = 1, cells = [[x]]\<rparr>"

definition two_by_two :: "real \<Rightarrow> real \<Rightarrow> real \<Rightarrow> real \<Rightarrow> matrix" where
  "two_by_two a b c d = \<lparr>rows_size = 2, cols_size = 2, cells = [[a, b], [c, d]]\<rparr>"

text \<open>The object the constructor returns for a matrix it accepts.\<close>

definition fresh :: "matrix \<Rightarrow> QR" where
  "fresh A0 = \<lparr>field_A = A0, field_Q = Matrix 0 0, field_R = Matrix 0 0\<rparr>"

section \<open>Notions used in the proofs\<close>

text \<open>The dot product of the first \<open>m\<close> components, and column \<open>j\<close> of a matrix.\<close>

definition dot :: "nat \<Rightarrow> (nat \<Rightarrow> real) \<Rightarrow> (nat \<Rightarrow> real) \<Rightarrow> real" where
  "dot m f g = (\<Sum>k<m. f k * g k)"

definition col :: "matrix \<Rightarrow> nat \<Rightarrow> nat \<Rightarrow> real" where
  "col M j = (\<lambda>r. elem M r j)"

text \<open>
  The residual of column \<open>k\<close>: what is left of column \<open>k\<close> of \<open>A\<close> after subtracting its
  components \<open>R(l,k)\<close> along the earlier columns of \<open>Q\<close>.
\<close>

definition resid :: "matrix \<Rightarrow> matrix \<Rightarrow> matrix \<Rightarrow> nat \<Rightarrow> nat \<Rightarrow> real" where
  "resid A Q R k = (\<lambda>r. elem A r k - (\<Sum>l<k. elem R l k * elem Q r l))"

text \<open>
  What holds of a column \<open>k\<close> once a decomposition has processed it: column \<open>k\<close> of \<open>Q\<close> and
  the residual are orthogonal to the earlier columns of \<open>Q\<close>; \<open>R(k,k)\<close> is 0 or the norm of
  the residual; and either \<open>R(k,k)\<close> exceeds the tolerance, column \<open>k\<close> of \<open>Q\<close> is a unit vector
  and the residual is \<open>R(k,k)\<close> times it, or \<open>R(k,k)\<close> lies between 0 and the tolerance and
  column \<open>k\<close> of \<open>Q\<close> is zero.
\<close>

definition column_ok :: "matrix \<Rightarrow> matrix \<Rightarrow> matrix \<Rightarrow> nat \<Rightarrow> bool" where
  "column_ok A Q R k \<longleftrightarrow>
     (\<forall>l<k. dot (rows_size A) (col Q k) (col Q l) = 0)
   \<and> (\<forall>l<k. dot (rows_size A) (resid A Q R k) (col Q l) = 0)
   \<and> (elem R k k = 0 \<or> elem R k k = sqrt (dot (rows_size A) (resid A Q R k) (resid A Q R k)))
   \<and> (if tolerance < elem R k k
       then dot (rows_size A) (col Q k) (col Q k) = 1
            \<and> (\<forall>r<rows_size A. resid A Q R k r = elem R k k * elem Q r k)
       else 0 \<le> elem R k k \<and> (\<forall>r<rows_size A. elem Q r k = 0))"

text \<open>
  The invariant of the outer loop of classical Gram-Schmidt before column \<open>i\<close>: the first
  \<open>i\<close> columns are processed, and the entries not yet written are still zero.
\<close>

definition cgs_inv :: "matrix \<Rightarrow> nat \<Rightarrow> nat \<Rightarrow> matrix \<Rightarrow> matrix \<Rightarrow> bool" where
  "cgs_inv A p i Q R \<longleftrightarrow>
     has_shape Q (rows_size A) p \<and> has_shape R p (cols_size A)
   \<and> (\<forall>k<min i p. column_ok A Q R k)
   \<and> (\<forall>a<p. \<forall>b<cols_size A. i \<le> b \<or> b < a \<longrightarrow> elem R a b = 0)
   \<and> (\<forall>r<rows_size A. \<forall>j<p. i \<le> j \<longrightarrow> elem Q r j = 0)"

text \<open>
  The invariant of the outer loop of modified Gram-Schmidt before step \<open>j\<close>: in addition,
  each working vector \<open>V[k]\<close> is column \<open>k\<close> of \<open>A\<close> minus its components along the columns of
  \<open>Q\<close> built so far, and is orthogonal to them.
\<close>

definition mgs_inv :: "matrix \<Rightarrow> nat \<Rightarrow> nat \<Rightarrow> matrix \<Rightarrow> matrix \<Rightarrow> real list list \<Rightarrow> bool" where
  "mgs_inv A p j Q R V \<longleftrightarrow>
     has_shape Q (rows_size A) p \<and> has_shape R p (cols_size A)
   \<and> length V = cols_size A \<and> (\<forall>k<cols_size A. length (V ! k) = rows_size A)
   \<and> (\<forall>k<j. column_ok A Q R k)
   \<and> (\<forall>a<p. \<forall>b<cols_size A. j \<le> a \<or> b < a \<longrightarrow> elem R a b = 0)
   \<and> (\<forall>r<rows_size A. \<forall>l<p. j \<le> l \<longrightarrow> elem Q r l = 0)
   \<and> (\<forall>k<cols_size A. \<forall>r<rows_size A.
         V ! k ! r = elem A r k - (\<Sum>l<min j k. elem R l k * elem Q r l))
   \<and> (\<forall>k<cols_size A. \<forall>l<min j k. dot (rows_size A) ((!) (V ! k)) (col Q l) = 0)"

text \<open>What both decompositions establish on return.\<close>

definition gs_post :: "matrix \<Rightarrow> matrix \<Rightarrow> matrix \<Rightarrow> bool" where
  "gs_post A Q R \<longleftrightarrow>
     has_shape Q (rows_size A) (min (rows_size A) (cols_size A))
   \<and> has_shape R (min (rows_size A) (cols_size A)) (cols_size A)
   \<and> (\<forall>k<min (rows_size A) (cols_size A). column_ok A Q R k)
   \<and> (\<forall>a<min (rows_size A) (cols_size A). \<forall>b<cols_size A. b < a \<longrightarrow> elem R a b = 0)"


section \<open>The tolerance is positive\<close>

lemma tolerance_pos [simp]: "0 < tolerance"
  by (simp add: tolerance_def)

lemma tolerance_not_neg [simp]: "\<not> tolerance < 0"
  by (simp add: tolerance_def)

lemma tolerance_nonneg [simp]: "0 \<le> tolerance"
  by (simp add: tolerance_def)

section \<open>Frame lemmas\<close>

lemma qrCGS_field_A: "field_A (qrCGS q) = field_A q"
  by (simp add: qrCGS_def Let_def split: prod.splits)

lemma qrMGS_field_A: "field_A (qrMGS q) = field_A q"
  by (simp add: qrMGS_def Let_def split: prod.splits)

lemma invoke_field_A: "field_A (invoke c q) = field_A q"
  by (cases c)
     (simp_all add: qr_def qrCGS_field_A qrMGS_field_A after_def qrIGS_def qrBGS_def qrRGS_def
        qrCGSP_def qrHouseholder_def qrGivens_def)

lemma fold_invoke_field_A: "field_A (fold invoke cs q) = field_A q"
  by (induction cs arbitrary: q) (simp_all add: invoke_field_A)

lemma QR_new_fresh: "0 < rows_size A0 \<Longrightarrow> 0 < cols_size A0 \<Longrightarrow> QR_new A0 = Inr (fresh A0)"
  by (simp add: QR_new_def fresh_def)

section \<open>Decomposing a 1 x 1 matrix\<close>

lemma qrCGS_one_by_one:
  "qrCGS (fresh (one_by_one x)) =
     (fresh (one_by_one x))
       \<lparr>field_Q := one_by_one (if \<bar>x\<bar> > tolerance then x / \<bar>x\<bar> else 0),
        field_R := one_by_one (if \<bar>x\<bar> > tolerance then \<bar>x\<bar> else 0)\<rparr>"
  by (simp add: qrCGS_def fresh_def one_by_one_def cgs_column_def Matrix_def dot_loop_def
        getCol_def elem_def set_elem_def setCol_def div_loop_def Let_def)

lemma qrMGS_one_by_one:
  "qrMGS (fresh (one_by_one x)) =
     (fresh (one_by_one x))
       \<lparr>field_Q := one_by_one (if \<bar>x\<bar> > tolerance then x / \<bar>x\<bar> else 0),
        field_R := one_by_one \<bar>x\<bar>\<rparr>"
  by (simp add: qrMGS_def fresh_def one_by_one_def mgs_step_def Matrix_def dot_loop_def
        getCol_def elem_def set_elem_def setCol_def div_loop_def Let_def epsilon_def)

lemma Matrix_1_1: "Matrix 1 1 = one_by_one 0"
  by (simp add: Matrix_def one_by_one_def)

section \<open>Matrices, loops and dot products\<close>

lemma has_shape_Matrix: "has_shape (Matrix m n) m n"
  by (simp add: has_shape_def wf_matrix_def Matrix_def)

lemma elem_Matrix: "i < m \<Longrightarrow> j < n \<Longrightarrow> elem (Matrix m n) i j = 0"
  by (simp add: elem_def Matrix_def)

lemma has_shape_set_elem: "has_shape M m n \<Longrightarrow> has_shape (set_elem M i j x) m n"
  by (cases "i < m") (auto simp: has_shape_def wf_matrix_def set_elem_def nth_list_update)

lemma elem_set_elem:
  "has_shape M m n \<Longrightarrow> i < m \<Longrightarrow> j < n \<Longrightarrow>
   elem (set_elem M i j x) a b = (if a = i \<and> b = j then x else elem M a b)"
  by (auto simp: has_shape_def wf_matrix_def set_elem_def elem_def nth_list_update)

lemma has_shape_setCol: "has_shape M m n \<Longrightarrow> has_shape (setCol M v j) m n"
  by (auto simp: has_shape_def wf_matrix_def setCol_def)

lemma elem_setCol:
  "has_shape M m n \<Longrightarrow> j < n \<Longrightarrow> a < m \<Longrightarrow>
   elem (setCol M v j) a b = (if b = j then v ! a else elem M a b)"
  by (auto simp: has_shape_def wf_matrix_def setCol_def elem_def)

lemma length_getCol: "length (getCol M j) = rows_size M"
  by (simp add: getCol_def)

lemma nth_getCol: "r < rows_size M \<Longrightarrow> getCol M j ! r = elem M r j"
  by (simp add: getCol_def)

lemma fold_upt_Suc: "fold f [0..<Suc k] a = f k (fold f [0..<k] a)"
  by simp

lemma dot_loop_sum: "dot_loop m v e = (\<Sum>k<m. v ! k * e ! k)"
  unfolding dot_loop_def by (induction m) simp_all

lemma length_sub_loop: "length (sub_loop m c e u) = length u"
  unfolding sub_loop_def by (induction m) simp_all

lemma nth_sub_loop:
  "r < length u \<Longrightarrow> sub_loop m c e u ! r = (if r < m then u ! r - c * e ! r else u ! r)"
  unfolding sub_loop_def
proof (induction m)
  case 0
  then show ?case by simp
next
  case (Suc m)
  have len: "length (fold (\<lambda>k w. w[k := w ! k - c * e ! k]) [0..<m] u) = length u"
    using length_sub_loop [of m c e u] by (simp add: sub_loop_def)
  from Suc len show ?case
    by (auto simp: nth_list_update less_Suc_eq)
qed

lemma length_div_loop: "length (div_loop m u x) = m"
proof -
  have "length (fold (\<lambda>k e. e[k := u ! k / x]) [0..<j] w) = length w" for j and w :: "real list"
    by (induction j) simp_all
  then show ?thesis by (simp add: div_loop_def)
qed

lemma nth_div_loop: "r < m \<Longrightarrow> div_loop m u x ! r = u ! r / x"
proof -
  have len: "length (fold (\<lambda>k e. e[k := u ! k / x]) [0..<j] w) = length w" for j and w :: "real list"
    by (induction j) simp_all
  have "r < length w \<Longrightarrow>
        fold (\<lambda>k e. e[k := u ! k / x]) [0..<j] w ! r = (if r < j then u ! r / x else w ! r)"
    for j and w :: "real list"
    by (induction j) (auto simp: nth_list_update len less_Suc_eq)
  from this [of "replicate m 0" m] show "r < m \<Longrightarrow> div_loop m u x ! r = u ! r / x"
    by (simp add: div_loop_def)
qed

lemma dot_loop_getCol:
  "rows_size Q = m \<Longrightarrow> length v = m \<Longrightarrow> dot_loop m v (getCol Q j) = dot m ((!) v) (col Q j)"
  by (simp add: dot_loop_sum dot_def col_def nth_getCol)

lemma dot_loop_nth: "dot_loop m v e = dot m ((!) v) ((!) e)"
  by (simp add: dot_loop_sum dot_def)

lemma dot_cong: "(\<And>k. k < m \<Longrightarrow> f k = f' k) \<Longrightarrow> (\<And>k. k < m \<Longrightarrow> g k = g' k) \<Longrightarrow> dot m f g = dot m f' g'"
  by (simp add: dot_def)

lemma dot_commute: "dot m f g = dot m g f"
  by (simp add: dot_def mult.commute)

lemma dot_diff_left: "dot m (\<lambda>r. f r - g r) h = dot m f h - dot m g h"
  by (simp add: dot_def left_diff_distrib sum_subtractf)

lemma dot_scale_left: "dot m (\<lambda>r. c * f r) h = c * dot m f h"
  by (simp add: dot_def sum_distrib_left mult.assoc)

lemma dot_sum_left: "dot m (\<lambda>r. \<Sum>j<k. f j r) h = (\<Sum>j<k. dot m (f j) h)"
  unfolding dot_def by (subst sum.swap) (simp add: sum_distrib_right)

lemma dot_zero_left: "(\<And>r. r < m \<Longrightarrow> f r = 0) \<Longrightarrow> dot m f g = 0"
  by (simp add: dot_def)

lemma dot_self_nonneg: "0 \<le> dot m f f"
  by (simp add: dot_def sum_nonneg)

lemma dot_self_zero: "dot m f f = 0 \<Longrightarrow> r < m \<Longrightarrow> f r = 0"
proof -
  assume z: "dot m f f = 0" and r: "r < m"
  have "(\<Sum>k<m. f k * f k) = 0 \<longleftrightarrow> (\<forall>k\<in>{..<m}. f k * f k = 0)"
    by (rule sum_nonneg_eq_0_iff) simp_all
  with z r show "f r = 0" by (simp add: dot_def)
qed

text \<open>The inner loop of classical Gram-Schmidt.\<close>

lemma cgs_inner:
  assumes R: "has_shape R p n" and i: "i < n" and Q: "rows_size Q = m" and v: "length v = m"
  shows "J \<le> p \<Longrightarrow> \<exists>R' u. fold (cgs_project m i v Q) [0..<J] (R, v) = (R', u)
     \<and> has_shape R' p n
     \<and> (\<forall>a<p. \<forall>b<n. elem R' a b =
           (if b = i \<and> a < J then dot m ((!) v) (col Q a) else elem R a b))
     \<and> length u = m
     \<and> (\<forall>r<m. u ! r = v ! r - (\<Sum>j<J. dot m ((!) v) (col Q j) * elem Q r j))"
proof (induction J)
  case 0
  with R v show ?case by simp
next
  case (Suc J)
  then have "J \<le> p" and Jp: "J < p" by simp_all
  with Suc.IH obtain R' u where
    f: "fold (cgs_project m i v Q) [0..<J] (R, v) = (R', u)"
    and s: "has_shape R' p n"
    and e: "\<forall>a<p. \<forall>b<n. elem R' a b =
           (if b = i \<and> a < J then dot m ((!) v) (col Q a) else elem R a b)"
    and l: "length u = m"
    and u: "\<forall>r<m. u ! r = v ! r - (\<Sum>j<J. dot m ((!) v) (col Q j) * elem Q r j)"
    by blast
  let ?c = "dot m ((!) v) (col Q J)"
  let ?R = "set_elem R' J i ?c"
  let ?u = "sub_loop m ?c (getCol Q J) u"
  have step: "fold (cgs_project m i v Q) [0..<Suc J] (R, v) = (?R, ?u)"
    using f Q v by (simp add: cgs_project_def dot_loop_getCol Let_def)
  have s': "has_shape ?R p n"
    using s by (rule has_shape_set_elem)
  have e': "\<forall>a<p. \<forall>b<n. elem ?R a b =
           (if b = i \<and> a < Suc J then dot m ((!) v) (col Q a) else elem R a b)"
    using e Jp i by (auto simp: elem_set_elem [OF s] less_Suc_eq)
  have l': "length ?u = m"
    using l by (simp add: length_sub_loop)
  have u': "\<forall>r<m. ?u ! r = v ! r - (\<Sum>j<Suc J. dot m ((!) v) (col Q j) * elem Q r j)"
    using u l Q by (simp add: nth_sub_loop nth_getCol)
  from step s' e' l' u' show ?case by blast
qed

lemma cgs_column_spec:
  fixes A Q R :: matrix
  assumes Q: "has_shape Q m p" and R: "has_shape R p n" and i: "i < n" and A: "rows_size A = m"
  defines "c \<equiv> \<lambda>j. dot m (col A i) (col Q j)"
  defines "u \<equiv> \<lambda>r. elem A r i - (\<Sum>j<min p i. c j * elem Q r j)"
  defines "nv \<equiv> sqrt (dot m u u)"
  shows "\<exists>Q' R'. cgs_column m p A i (Q, R) = (Q', R')
     \<and> has_shape Q' m p \<and> has_shape R' p n
     \<and> (\<forall>a<p. \<forall>b<n. elem R' a b =
           (if b = i \<and> a < min p i then c a
            else if a = i \<and> b = i then (if nv > tolerance then nv else 0)
            else elem R a b))
     \<and> (\<forall>r<m. \<forall>j<p. elem Q' r j =
           (if j = i \<and> nv > tolerance then u r / nv else elem Q r j))"
proof -
  let ?v = "getCol A i"
  have lv: "length ?v = m"
    using A by (simp add: length_getCol)
  have Qm: "rows_size Q = m"
    using Q by (simp add: has_shape_def)
  have cv: "dot m ((!) ?v) (col Q j) = c j" for j
    unfolding c_def using A by (intro dot_cong) (simp_all add: nth_getCol col_def)
  from cgs_inner [OF R i Qm lv, of "min p i"] obtain R1 u1 where
    f: "fold (cgs_project m i ?v Q) [0..<min p i] (R, ?v) = (R1, u1)"
    and s: "has_shape R1 p n"
    and e: "\<forall>a<p. \<forall>b<n. elem R1 a b = (if b = i \<and> a < min p i then c a else elem R a b)"
    and l: "length u1 = m"
    and u1: "\<forall>r<m. u1 ! r = ?v ! r - (\<Sum>j<min p i. c j * elem Q r j)"
    unfolding cv by auto
  have u1u: "u1 ! r = u r" if "r < m" for r
    using that u1 A by (simp add: u_def nth_getCol)
  have nv: "sqrt (dot_loop m u1 u1) = nv"
    unfolding nv_def dot_loop_nth by (simp add: u1u cong: dot_cong)
  show ?thesis
  proof (cases "i < p")
    case False
    then have "cgs_column m p A i (Q, R) = (Q, R1)"
      using f by (simp add: cgs_column_def)
    with False Q s e show ?thesis by auto
  next
    case ip: True
    show ?thesis
    proof (cases "nv > tolerance")
      case True
      let ?Q = "setCol Q (div_loop m u1 nv) i" and ?R = "set_elem R1 i i nv"
      have "cgs_column m p A i (Q, R) = (?Q, ?R)"
        using f ip True nv by (simp add: cgs_column_def Let_def)
      moreover have "has_shape ?Q m p"
        using Q by (rule has_shape_setCol)
      moreover have "has_shape ?R p n"
        using s by (rule has_shape_set_elem)
      moreover have "\<forall>a<p. \<forall>b<n. elem ?R a b =
           (if b = i \<and> a < min p i then c a
            else if a = i \<and> b = i then (if nv > tolerance then nv else 0)
            else elem R a b)"
        using e ip i True by (auto simp: elem_set_elem [OF s])
      moreover have "\<forall>r<m. \<forall>j<p. elem ?Q r j =
           (if j = i \<and> nv > tolerance then u r / nv else elem Q r j)"
        using ip True by (simp add: elem_setCol [OF Q] nth_div_loop u1u)
      ultimately show ?thesis by blast
    next
      case False
      let ?R = "set_elem R1 i i 0"
      have "cgs_column m p A i (Q, R) = (Q, ?R)"
        using f ip False nv by (simp add: cgs_column_def Let_def)
      moreover have "has_shape ?R p n"
        using s by (rule has_shape_set_elem)
      moreover have "\<forall>a<p. \<forall>b<n. elem ?R a b =
           (if b = i \<and> a < min p i then c a
            else if a = i \<and> b = i then (if nv > tolerance then nv else 0)
            else elem R a b)"
        using e ip i False by (auto simp: elem_set_elem [OF s])
      ultimately show ?thesis using Q False by auto
    qed
  qed
qed

section \<open>The invariant of classical Gram-Schmidt\<close>

text \<open>
  The invariants of this section and the next are those of the transcription in exact
  arithmetic: they speak of the orthogonality of the columns of \<open>Q\<close>, which the exact
  operations give and operations that round do not.
\<close>

lemma column_ok_cong:
  assumes Q: "\<And>r j. r < rows_size A \<Longrightarrow> j \<le> k \<Longrightarrow> elem Q' r j = elem Q r j"
    and R: "\<And>l. l \<le> k \<Longrightarrow> elem R' l k = elem R l k"
  shows "column_ok A Q' R' k = column_ok A Q R k"
proof -
  let ?m = "rows_size A"
  have res: "resid A Q' R' k r = resid A Q R k r" if "r < ?m" for r
    using that by (simp add: resid_def Q R)
  have d1: "dot ?m (col Q' k) (col Q' l) = dot ?m (col Q k) (col Q l)" if "l \<le> k" for l
    using that by (intro dot_cong) (simp_all add: col_def Q)
  have d2: "dot ?m (resid A Q' R' k) (col Q' l) = dot ?m (resid A Q R k) (col Q l)" if "l \<le> k" for l
    using that by (intro dot_cong) (simp_all add: col_def Q res)
  have d3: "dot ?m (resid A Q' R' k) (resid A Q' R' k) = dot ?m (resid A Q R k) (resid A Q R k)"
    by (intro dot_cong) (simp_all add: res)
  show ?thesis
    unfolding column_ok_def by (simp add: d1 d2 d3 res Q R)
qed

lemma residual_orthogonal:
  fixes q :: "nat \<Rightarrow> nat \<Rightarrow> real"
  assumes orth: "\<And>j l. j < k \<Longrightarrow> l < k \<Longrightarrow> j \<noteq> l \<Longrightarrow> dot m (q j) (q l) = 0"
    and unit: "\<And>l. l < k \<Longrightarrow> dot m (q l) (q l) = 1 \<or> (\<forall>r<m. q l r = 0)"
    and l: "l < k"
  shows "dot m (\<lambda>r. a r - (\<Sum>j<k. dot m a (q j) * q j r)) (q l) = 0"
proof -
  have "dot m (\<lambda>r. \<Sum>j<k. dot m a (q j) * q j r) (q l) = (\<Sum>j<k. dot m a (q j) * dot m (q j) (q l))"
    by (simp add: dot_sum_left dot_scale_left)
  also have "\<dots> = (\<Sum>j<k. if j = l then dot m a (q l) * dot m (q l) (q l) else 0)"
    using l by (intro sum.cong) (auto simp: orth)
  also have "\<dots> = dot m a (q l) * dot m (q l) (q l)"
    using l by simp
  finally have s: "dot m (\<lambda>r. \<Sum>j<k. dot m a (q j) * q j r) (q l) = dot m a (q l) * dot m (q l) (q l)" .
  from unit [OF l] have "dot m a (q l) * dot m (q l) (q l) = dot m a (q l)"
  proof
    assume "dot m (q l) (q l) = 1"
    then show ?thesis by simp
  next
    assume z: "\<forall>r<m. q l r = 0"
    then have "dot m a (q l) = 0"
      by (simp add: dot_def)
    then show ?thesis by simp
  qed
  with s show ?thesis
    by (simp add: dot_diff_left)
qed

lemma column_ok_new:
  fixes A Q R :: matrix and i :: nat
  defines "m \<equiv> rows_size A"
  defines "nv \<equiv> sqrt (dot m (resid A Q R i) (resid A Q R i))"
  assumes W: "\<And>l. l < i \<Longrightarrow> dot m (resid A Q R i) (col Q l) = 0"
    and d: "elem R i i = nv \<or> elem R i i = 0 \<and> nv \<le> tolerance"
    and q: "\<And>r. r < m \<Longrightarrow> elem Q r i = (if nv > tolerance then resid A Q R i r / nv else 0)"
  shows "column_ok A Q R i"
proof -
  let ?w = "resid A Q R i"
  have nn: "0 \<le> nv"
    by (simp add: nv_def dot_self_nonneg)
  have sq: "nv * nv = dot m ?w ?w"
    by (simp add: nv_def dot_self_nonneg)
  have orth: "dot m (col Q i) (col Q l) = 0" if "l < i" for l
  proof (cases "nv > tolerance")
    case True
    have "dot m (col Q i) (col Q l) = dot m (\<lambda>r. (1 / nv) * ?w r) (col Q l)"
      using True by (intro dot_cong) (simp_all add: col_def q)
    also have "\<dots> = 0"
      by (simp only: dot_scale_left W [OF that] mult_zero_right)
    finally show ?thesis .
  next
    case False
    then show ?thesis
      by (intro dot_zero_left) (simp add: col_def q)
  qed
  have unit: "dot m (col Q i) (col Q i) = 1" if "nv > tolerance"
  proof -
    from that have pos: "nv \<noteq> 0" by auto
    have "dot m (col Q i) (col Q i) = dot m (\<lambda>r. (1 / nv) * ?w r) (\<lambda>r. (1 / nv) * ?w r)"
      using that by (intro dot_cong) (simp_all add: col_def q)
    also have "\<dots> = (1 / nv) * ((1 / nv) * dot m ?w ?w)"
      by (simp only: dot_scale_left dot_commute [of m ?w "\<lambda>r. (1 / nv) * ?w r"])
    also have "\<dots> = 1"
      using pos by (simp add: sq [symmetric])
    finally show ?thesis .
  qed
  show ?thesis
  proof (cases "tolerance < elem R i i")
    case True
    with d have e: "elem R i i = nv" and big: "nv > tolerance"
      by auto
    from big tolerance_pos have "nv \<noteq> 0"
      by linarith
    with big have "\<forall>r<m. ?w r = elem R i i * elem Q r i"
      by (simp add: q e)
    with True e big orth W unit tolerance_pos show ?thesis
      unfolding column_ok_def m_def [symmetric] nv_def [symmetric] by simp
  next
    case False
    with d have small: "\<not> nv > tolerance" and nneg: "0 \<le> elem R i i"
      using nn by auto
    then have "\<forall>r<m. elem Q r i = 0"
      by (simp add: q)
    with False small nneg orth W d show ?thesis
      unfolding column_ok_def m_def [symmetric] nv_def [symmetric] by auto
  qed
qed

lemma column_ok_orthogonal:
  assumes "\<And>k. k < i \<Longrightarrow> column_ok A Q R k" and "j < i" and "l < i" and "j \<noteq> l"
  shows "dot (rows_size A) (col Q j) (col Q l) = 0"
proof (cases "l < j")
  case True
  with assms(1) [OF assms(2)] show ?thesis
    by (simp add: column_ok_def)
next
  case False
  with assms(4) have "j < l" by simp
  with assms(1) [OF assms(3)] have "dot (rows_size A) (col Q l) (col Q j) = 0"
    by (simp add: column_ok_def)
  then show ?thesis
    by (simp add: dot_commute)
qed

lemma column_ok_unit_or_zero:
  assumes "column_ok A Q R l"
  shows "dot (rows_size A) (col Q l) (col Q l) = 1 \<or> (\<forall>r<rows_size A. col Q l r = 0)"
  using assms by (auto simp: column_ok_def col_def split: if_splits)

lemma cgs_inv_step:
  assumes inv: "cgs_inv A p i Q R" and i: "i < cols_size A"
  shows "\<exists>Q' R'. cgs_column (rows_size A) p A i (Q, R) = (Q', R') \<and> cgs_inv A p (Suc i) Q' R'"
proof -
  let ?m = "rows_size A" and ?n = "cols_size A"
  define c where "c = (\<lambda>j. dot ?m (col A i) (col Q j))"
  define u where "u = (\<lambda>r. elem A r i - (\<Sum>j<min p i. c j * elem Q r j))"
  define nv where "nv = sqrt (dot ?m u u)"
  from inv have Q: "has_shape Q ?m p" and R: "has_shape R p ?n"
    and ok: "\<And>k. k < min i p \<Longrightarrow> column_ok A Q R k"
    and Rz: "\<And>a b. a < p \<Longrightarrow> b < ?n \<Longrightarrow> i \<le> b \<or> b < a \<Longrightarrow> elem R a b = 0"
    and Qz: "\<And>r j. r < ?m \<Longrightarrow> j < p \<Longrightarrow> i \<le> j \<Longrightarrow> elem Q r j = 0"
    by (auto simp: cgs_inv_def)
  from cgs_column_spec [OF Q R i refl] obtain Q' R' where
    step: "cgs_column ?m p A i (Q, R) = (Q', R')"
    and Q': "has_shape Q' ?m p" and R': "has_shape R' p ?n"
    and eR: "\<And>a b. a < p \<Longrightarrow> b < ?n \<Longrightarrow> elem R' a b =
           (if b = i \<and> a < min p i then c a
            else if a = i \<and> b = i then (if nv > tolerance then nv else 0)
            else elem R a b)"
    and eQ: "\<And>r j. r < ?m \<Longrightarrow> j < p \<Longrightarrow> elem Q' r j =
           (if j = i \<and> nv > tolerance then u r / nv else elem Q r j)"
    unfolding c_def u_def nv_def by blast
  have Rz': "elem R' a b = 0" if "a < p" "b < ?n" "Suc i \<le> b \<or> b < a" for a b
    using that by (auto simp: eR Rz)
  have Qz': "elem Q' r j = 0" if "r < ?m" "j < p" "Suc i \<le> j" for r j
    using that by (simp add: eQ Qz)
  have old: "column_ok A Q' R' k" if k: "k < min i p" for k
  proof -
    have "column_ok A Q' R' k = column_ok A Q R k"
      using k i by (intro column_ok_cong) (simp_all add: eQ eR)
    with ok [OF k] show ?thesis by simp
  qed
  have new: "column_ok A Q' R' i" if ip: "i < p"
  proof -
    have mi: "min p i = i" "min i p = i"
      using ip by simp_all
    have colQ: "col Q' l r = col Q l r" if "l < i" "r < ?m" for l r
      using that ip by (simp add: col_def eQ)
    have res: "resid A Q' R' i r = u r" if "r < ?m" for r
      using that ip i by (simp add: resid_def u_def mi eR eQ)
    have nv': "sqrt (dot ?m (resid A Q' R' i) (resid A Q' R' i)) = nv"
      unfolding nv_def by (simp add: res cong: dot_cong)
    have W: "dot ?m (resid A Q' R' i) (col Q' l) = 0" if l: "l < i" for l
    proof -
      have "dot ?m (resid A Q' R' i) (col Q' l) =
            dot ?m (\<lambda>r. col A i r - (\<Sum>j<i. dot ?m (col A i) (col Q j) * col Q j r)) (col Q l)"
      proof (rule dot_cong)
        show "resid A Q' R' i r = col A i r - (\<Sum>j<i. dot ?m (col A i) (col Q j) * col Q j r)"
          if "r < ?m" for r
          using that by (simp add: res u_def mi c_def col_def)
        show "col Q' l r = col Q l r" if "r < ?m" for r
          using l that by (rule colQ)
      qed
      also have "\<dots> = 0"
      proof (rule residual_orthogonal [OF _ _ l])
        show "dot ?m (col Q j) (col Q l') = 0" if "j < i" "l' < i" "j \<noteq> l'" for j l'
          using column_ok_orthogonal [of i A Q R j l'] ok that mi by simp
        show "dot ?m (col Q l') (col Q l') = 1 \<or> (\<forall>r<?m. col Q l' r = 0)" if "l' < i" for l'
          using column_ok_unit_or_zero [of A Q R l'] ok that mi by simp
      qed
      finally show ?thesis .
    qed
    show ?thesis
    proof (rule column_ok_new)
      show "dot ?m (resid A Q' R' i) (col Q' l) = 0" if "l < i" for l
        using W that .
      show "elem R' i i = sqrt (dot ?m (resid A Q' R' i) (resid A Q' R' i))
            \<or> elem R' i i = 0 \<and> sqrt (dot ?m (resid A Q' R' i) (resid A Q' R' i)) \<le> tolerance"
        unfolding nv' using ip i by (simp add: eR)
      show "elem Q' r i = (if sqrt (dot ?m (resid A Q' R' i) (resid A Q' R' i)) > tolerance
               then resid A Q' R' i r / sqrt (dot ?m (resid A Q' R' i) (resid A Q' R' i)) else 0)"
        if "r < ?m" for r
        unfolding nv' using that ip by (simp add: eQ res Qz)
    qed
  qed
  have all: "column_ok A Q' R' k" if "k < min (Suc i) p" for k
    using that old [of k] new by (cases "k = i") auto
  from step Q' R' all Rz' Qz' show ?thesis
    unfolding cgs_inv_def by blast
qed

section \<open>The invariant of modified Gram-Schmidt\<close>

lemma upt_from_Suc: "Suc j \<le> K \<Longrightarrow> [Suc j..<Suc K] = [Suc j..<K] @ [K]"
  by simp

lemma mgs_inner:
  assumes R: "has_shape R p n" and j: "j < p" and V: "length V = n"
  shows "Suc j \<le> K \<Longrightarrow> K \<le> n \<Longrightarrow>
     \<exists>R' V'. fold (mgs_update m j q) [j + 1..<K] (R, V) = (R', V')
     \<and> has_shape R' p n
     \<and> (\<forall>a<p. \<forall>b<n. elem R' a b =
           (if a = j \<and> j < b \<and> b < K then dot m ((!) q) ((!) (V ! b)) else elem R a b))
     \<and> length V' = n
     \<and> (\<forall>k<n. V' ! k =
           (if j < k \<and> k < K then sub_loop m (dot m ((!) q) ((!) (V ! k))) q (V ! k) else V ! k))"
proof (induction K rule: dec_induct)
  case base
  with R V show ?case by auto
next
  case (step K)
  then have "K \<le> n" and Kn: "K < n" by simp_all
  with step.IH obtain R' V' where
    f: "fold (mgs_update m j q) [j + 1..<K] (R, V) = (R', V')"
    and s: "has_shape R' p n"
    and e: "\<forall>a<p. \<forall>b<n. elem R' a b =
           (if a = j \<and> j < b \<and> b < K then dot m ((!) q) ((!) (V ! b)) else elem R a b)"
    and l: "length V' = n"
    and v: "\<forall>k<n. V' ! k =
           (if j < k \<and> k < K then sub_loop m (dot m ((!) q) ((!) (V ! k))) q (V ! k) else V ! k)"
    by blast
  from v Kn have VK: "V' ! K = V ! K" by simp
  let ?d = "dot m ((!) q) ((!) (V ! K))"
  let ?R = "set_elem R' j K ?d"
  let ?V = "V'[K := sub_loop m ?d q (V ! K)]"
  have "fold (mgs_update m j q) [j + 1..<Suc K] (R, V) = (?R, ?V)"
    using f step.hyps(1) VK by (simp add: mgs_update_def Let_def dot_loop_nth)
  moreover have "has_shape ?R p n"
    using s by (rule has_shape_set_elem)
  moreover have "\<forall>a<p. \<forall>b<n. elem ?R a b =
           (if a = j \<and> j < b \<and> b < Suc K then dot m ((!) q) ((!) (V ! b)) else elem R a b)"
    using e j Kn step.hyps(1) by (auto simp: elem_set_elem [OF s] less_Suc_eq)
  moreover have "length ?V = n"
    using l by simp
  moreover have "\<forall>k<n. ?V ! k =
           (if j < k \<and> k < Suc K then sub_loop m (dot m ((!) q) ((!) (V ! k))) q (V ! k) else V ! k)"
    using v l Kn step.hyps(1) by (auto simp: nth_list_update less_Suc_eq)
  ultimately show ?case by blast
qed

lemma mgs_clear:
  assumes R: "has_shape R p n" and j: "j < p"
  shows "Suc j \<le> K \<Longrightarrow> K \<le> n \<Longrightarrow>
     \<exists>R'. fold (\<lambda>k Rk. set_elem Rk j k 0) [j + 1..<K] R = R'
     \<and> has_shape R' p n
     \<and> (\<forall>a<p. \<forall>b<n. elem R' a b = (if a = j \<and> j < b \<and> b < K then 0 else elem R a b))"
proof (induction K rule: dec_induct)
  case base
  with R show ?case by auto
next
  case (step K)
  then have Kn: "K < n" by simp
  with step.IH obtain R' where
    f: "fold (\<lambda>k Rk. set_elem Rk j k 0) [j + 1..<K] R = R'"
    and s: "has_shape R' p n"
    and e: "\<forall>a<p. \<forall>b<n. elem R' a b = (if a = j \<and> j < b \<and> b < K then 0 else elem R a b)"
    by auto
  have "fold (\<lambda>k Rk. set_elem Rk j k 0) [j + 1..<Suc K] R = set_elem R' j K 0"
    using step.hyps(1) f by simp
  moreover have "has_shape (set_elem R' j K 0) p n"
    using s by (rule has_shape_set_elem)
  moreover have "\<forall>a<p. \<forall>b<n. elem (set_elem R' j K 0) a b =
      (if a = j \<and> j < b \<and> b < Suc K then 0 else elem R a b)"
    using e j Kn step.hyps(1) by (auto simp: elem_set_elem [OF s] less_Suc_eq)
  ultimately show ?case by blast
qed

lemma mgs_init:
  "fold (\<lambda>i W. W[i := getCol A i]) [0..<n] (replicate n []) = map (getCol A) [0..<n]"
proof -
  have "k \<le> n \<Longrightarrow> fold (\<lambda>i W. W[i := getCol A i]) [0..<k] (replicate n []) =
        map (getCol A) [0..<k] @ replicate (n - k) []" for k
  proof (induction k)
    case 0
    then show ?case by simp
  next
    case (Suc k)
    then have "n - k = Suc (n - Suc k)" by simp
    with Suc show ?case
      by (simp add: list_update_append)
  qed
  from this [of n] show ?thesis by simp
qed

lemma mgs_step_spec:
  fixes Q R :: matrix and V :: "real list list" and j m :: nat
  assumes Q: "has_shape Q m p" and R: "has_shape R p n" and j: "j < p" and pn: "p \<le> n"
    and V: "length V = n" and Vm: "\<And>k. k < n \<Longrightarrow> length (V ! k) = m"
  defines "nv \<equiv> sqrt (dot m ((!) (V ! j)) ((!) (V ! j)))"
  defines "d \<equiv> \<lambda>k. dot m (\<lambda>r. V ! j ! r / nv) ((!) (V ! k))"
  shows "\<exists>Q' R' V'. mgs_step m n j (Q, R, V) = (Q', R', V')
     \<and> has_shape Q' m p \<and> has_shape R' p n \<and> length V' = n \<and> (\<forall>k<n. length (V' ! k) = m)
     \<and> (\<forall>a<p. \<forall>b<n. elem R' a b =
           (if a = j \<and> b = j then nv
            else if a = j \<and> j < b then (if nv > tolerance then d b else 0)
            else elem R a b))
     \<and> (\<forall>r<m. \<forall>l<p. elem Q' r l =
           (if l = j then (if nv > tolerance then V ! j ! r / nv else 0) else elem Q r l))
     \<and> (\<forall>k<n. \<forall>r<m. V' ! k ! r =
           (if j < k \<and> nv > tolerance then V ! k ! r - d k * (V ! j ! r / nv) else V ! k ! r))"
proof -
  let ?R1 = "set_elem R j j nv"
  have jn: "j < n" using j pn by simp
  have R1: "has_shape ?R1 p n"
    using R by (rule has_shape_set_elem)
  have eR1: "elem ?R1 a b = (if a = j \<and> b = j then nv else elem R a b)" if "a < p" "b < n" for a b
    using that j jn by (simp add: elem_set_elem [OF R])
  have nv: "sqrt (dot_loop m (V ! j) (V ! j)) = nv"
    by (simp add: nv_def dot_loop_nth)
  show ?thesis
  proof (cases "nv > tolerance")
    case True
    let ?q = "div_loop m (V ! j) nv"
    let ?Q = "setCol Q ?q j"
    have dq: "dot m ((!) ?q) ((!) (V ! k)) = d k" for k
      unfolding d_def by (intro dot_cong) (simp_all add: nth_div_loop)
    from mgs_inner [OF R1 j V, of n m ?q] jn obtain R' V' where
      f: "fold (mgs_update m j ?q) [j + 1..<n] (?R1, V) = (R', V')"
      and s: "has_shape R' p n"
      and e: "\<forall>a<p. \<forall>b<n. elem R' a b = (if a = j \<and> j < b \<and> b < n then d b else elem ?R1 a b)"
      and l: "length V' = n"
      and v: "\<forall>k<n. V' ! k = (if j < k \<and> k < n then sub_loop m (d k) ?q (V ! k) else V ! k)"
      unfolding dq by auto
    have "mgs_step m n j (Q, R, V) = (?Q, R', V')"
      using f True nv by (simp add: mgs_step_def Let_def epsilon_def)
    moreover have "has_shape ?Q m p"
      using Q by (rule has_shape_setCol)
    moreover have "\<forall>k<n. length (V' ! k) = m"
      using v Vm by (simp add: length_sub_loop)
    moreover have "\<forall>a<p. \<forall>b<n. elem R' a b =
           (if a = j \<and> b = j then nv
            else if a = j \<and> j < b then (if nv > tolerance then d b else 0)
            else elem R a b)"
      using e True by (auto simp: eR1)
    moreover have "\<forall>r<m. \<forall>l<p. elem ?Q r l =
           (if l = j then (if nv > tolerance then V ! j ! r / nv else 0) else elem Q r l)"
      using True j by (simp add: elem_setCol [OF Q] nth_div_loop)
    moreover have "\<forall>k<n. \<forall>r<m. V' ! k ! r =
           (if j < k \<and> nv > tolerance then V ! k ! r - d k * (V ! j ! r / nv) else V ! k ! r)"
      using v True Vm by (simp add: nth_sub_loop nth_div_loop)
    ultimately show ?thesis using s l by blast
  next
    case False
    let ?Q = "setCol Q (replicate m 0) j"
    from mgs_clear [OF R1 j, of n] jn obtain R' where
      f: "fold (\<lambda>k Rk. set_elem Rk j k 0) [j + 1..<n] ?R1 = R'"
      and s: "has_shape R' p n"
      and e: "\<forall>a<p. \<forall>b<n. elem R' a b = (if a = j \<and> j < b \<and> b < n then 0 else elem ?R1 a b)"
      by auto
    have "mgs_step m n j (Q, R, V) = (?Q, R', V)"
      using f False nv by (simp add: mgs_step_def Let_def epsilon_def)
    moreover have "has_shape ?Q m p"
      using Q by (rule has_shape_setCol)
    moreover have "\<forall>a<p. \<forall>b<n. elem R' a b =
           (if a = j \<and> b = j then nv
            else if a = j \<and> j < b then (if nv > tolerance then d b else 0)
            else elem R a b)"
      using e False by (auto simp: eR1)
    moreover have "\<forall>r<m. \<forall>l<p. elem ?Q r l =
           (if l = j then (if nv > tolerance then V ! j ! r / nv else 0) else elem Q r l)"
      using False j by (simp add: elem_setCol [OF Q])
    ultimately show ?thesis using s V Vm False by auto
  qed
qed

lemma mgs_inv_step:
  assumes inv: "mgs_inv A p j Q R V" and j: "j < p" and pn: "p \<le> cols_size A"
  shows "\<exists>Q' R' V'. mgs_step (rows_size A) (cols_size A) j (Q, R, V) = (Q', R', V')
           \<and> mgs_inv A p (Suc j) Q' R' V'"
proof -
  let ?m = "rows_size A" and ?n = "cols_size A"
  define nv where "nv = sqrt (dot ?m ((!) (V ! j)) ((!) (V ! j)))"
  define d where "d = (\<lambda>k. dot ?m (\<lambda>r. V ! j ! r / nv) ((!) (V ! k)))"
  have jn: "j < ?n" using j pn by simp
  from inv have Q: "has_shape Q ?m p" and R: "has_shape R p ?n"
    and V: "length V = ?n" and Vm: "\<And>k. k < ?n \<Longrightarrow> length (V ! k) = ?m"
    and ok: "\<And>k. k < j \<Longrightarrow> column_ok A Q R k"
    and Rz: "\<And>a b. a < p \<Longrightarrow> b < ?n \<Longrightarrow> j \<le> a \<or> b < a \<Longrightarrow> elem R a b = 0"
    and Qz: "\<And>r l. r < ?m \<Longrightarrow> l < p \<Longrightarrow> j \<le> l \<Longrightarrow> elem Q r l = 0"
    and Vr: "\<And>k r. k < ?n \<Longrightarrow> r < ?m \<Longrightarrow>
               V ! k ! r = elem A r k - (\<Sum>l<min j k. elem R l k * elem Q r l)"
    and Vo: "\<And>k l. k < ?n \<Longrightarrow> l < min j k \<Longrightarrow> dot ?m ((!) (V ! k)) (col Q l) = 0"
    by (auto simp: mgs_inv_def)
  from mgs_step_spec [OF Q R j pn V Vm] obtain Q' R' V' where
    step: "mgs_step ?m ?n j (Q, R, V) = (Q', R', V')"
    and Q': "has_shape Q' ?m p" and R': "has_shape R' p ?n"
    and V': "length V' = ?n" and Vm': "\<forall>k<?n. length (V' ! k) = ?m"
    and eR: "\<And>a b. a < p \<Longrightarrow> b < ?n \<Longrightarrow> elem R' a b =
           (if a = j \<and> b = j then nv
            else if a = j \<and> j < b then (if nv > tolerance then d b else 0)
            else elem R a b)"
    and eQ: "\<And>r l. r < ?m \<Longrightarrow> l < p \<Longrightarrow> elem Q' r l =
           (if l = j then (if nv > tolerance then V ! j ! r / nv else 0) else elem Q r l)"
    and eV: "\<And>k r. k < ?n \<Longrightarrow> r < ?m \<Longrightarrow> V' ! k ! r =
           (if j < k \<and> nv > tolerance then V ! k ! r - d k * (V ! j ! r / nv) else V ! k ! r)"
    unfolding nv_def d_def by blast
  have colQ: "col Q' l r = col Q l r" if "l < j" "r < ?m" for l r
    using that j by (simp add: col_def eQ)
  have Rz': "elem R' a b = 0" if "a < p" "b < ?n" "Suc j \<le> a \<or> b < a" for a b
    using that by (auto simp: eR Rz)
  have Qz': "elem Q' r l = 0" if "r < ?m" "l < p" "Suc j \<le> l" for r l
    using that by (simp add: eQ Qz)
  have old: "column_ok A Q' R' k" if k: "k < j" for k
  proof -
    have "column_ok A Q' R' k = column_ok A Q R k"
      using k j jn by (intro column_ok_cong) (simp_all add: eQ eR)
    with ok [OF k] show ?thesis by simp
  qed
  have res: "resid A Q' R' j r = V ! j ! r" if "r < ?m" for r
    using that j jn by (simp add: resid_def Vr eR eQ)
  have nv': "sqrt (dot ?m (resid A Q' R' j) (resid A Q' R' j)) = nv"
    unfolding nv_def by (simp add: res cong: dot_cong)
  have new: "column_ok A Q' R' j"
  proof (rule column_ok_new)
    show "dot ?m (resid A Q' R' j) (col Q' l) = 0" if l: "l < j" for l
    proof -
      have "dot ?m (resid A Q' R' j) (col Q' l) = dot ?m ((!) (V ! j)) (col Q l)"
        using l by (intro dot_cong) (simp_all add: res colQ)
      with Vo [of j l] jn l show ?thesis by simp
    qed
    show "elem R' j j = sqrt (dot ?m (resid A Q' R' j) (resid A Q' R' j))
          \<or> elem R' j j = 0 \<and> sqrt (dot ?m (resid A Q' R' j) (resid A Q' R' j)) \<le> tolerance"
      unfolding nv' using j jn by (simp add: eR)
    show "elem Q' r j = (if sqrt (dot ?m (resid A Q' R' j) (resid A Q' R' j)) > tolerance
             then resid A Q' R' j r / sqrt (dot ?m (resid A Q' R' j) (resid A Q' R' j)) else 0)"
      if "r < ?m" for r
      unfolding nv' using that j by (simp add: eQ res)
  qed
  have all: "column_ok A Q' R' k" if "k < Suc j" for k
    using that old [of k] new by (cases "k = j") auto
  have Vr': "V' ! k ! r = elem A r k - (\<Sum>l<min (Suc j) k. elem R' l k * elem Q' r l)"
    if k: "k < ?n" and r: "r < ?m" for k r
  proof (cases "j < k")
    case False
    then have m: "min (Suc j) k = k" "min j k = k" by simp_all
    have "(\<Sum>l<k. elem R' l k * elem Q' r l) = (\<Sum>l<k. elem R l k * elem Q r l)"
      using False k r j by (intro sum.cong) (simp_all add: eR eQ)
    with False k r show ?thesis
      by (simp add: eV Vr m)
  next
    case True
    then have m: "min (Suc j) k = Suc j" "min j k = j" by simp_all
    have s: "(\<Sum>l<j. elem R' l k * elem Q' r l) = (\<Sum>l<j. elem R l k * elem Q r l)"
      using True k r j by (intro sum.cong) (simp_all add: eR eQ)
    have t: "elem R' j k * elem Q' r j = (if nv > tolerance then d k * (V ! j ! r / nv) else 0)"
      using True k r j by (simp add: eR eQ)
    from True k r show ?thesis
      by (simp add: eV Vr m s t)
  qed
  have Vo': "dot ?m ((!) (V' ! k)) (col Q' l) = 0" if k: "k < ?n" and l: "l < min (Suc j) k" for k l
  proof (cases "j < k \<and> nv > tolerance")
    case False
    have V'k: "dot ?m ((!) (V' ! k)) (col Q' l) = dot ?m ((!) (V ! k)) (col Q' l)"
      using False k by (intro dot_cong) (auto simp: eV)
    show ?thesis
    proof (cases "l < j")
      case True
      have "dot ?m ((!) (V ! k)) (col Q' l) = dot ?m ((!) (V ! k)) (col Q l)"
        using True by (intro dot_cong) (simp_all add: colQ)
      with V'k Vo [of k l] k l True show ?thesis by simp
    next
      case lj: False
      with l have lj': "l = j" and jk: "j < k" by simp_all
      with False have "\<not> nv > tolerance" by simp
      then have "dot ?m ((!) (V ! k)) (col Q' l) = 0"
        unfolding dot_commute [of ?m "(!) (V ! k)"] using j lj'
        by (intro dot_zero_left) (simp add: col_def eQ)
      with V'k show ?thesis by simp
    qed
  next
    case True
    then have jk: "j < k" and big: "nv > tolerance" by simp_all
    let ?q = "\<lambda>r. V ! j ! r / nv"
    have nz: "nv \<noteq> 0" using big by auto
    have sq: "nv * nv = dot ?m ((!) (V ! j)) ((!) (V ! j))"
      by (simp add: nv_def dot_self_nonneg)
    have qq: "dot ?m ?q ?q = 1"
    proof -
      have "dot ?m ?q ?q = dot ?m (\<lambda>r. (1 / nv) * V ! j ! r) (\<lambda>r. (1 / nv) * V ! j ! r)"
        by simp
      also have "\<dots> = (1 / nv) * ((1 / nv) * dot ?m ((!) (V ! j)) ((!) (V ! j)))"
        by (simp only: dot_scale_left dot_commute [of ?m "(!) (V ! j)" "\<lambda>r. (1 / nv) * V ! j ! r"])
      also have "\<dots> = 1"
        using nz by (simp add: sq [symmetric])
      finally show ?thesis .
    qed
    have V'k: "dot ?m ((!) (V' ! k)) g = dot ?m ((!) (V ! k)) g - d k * dot ?m ?q g" for g
    proof -
      have "dot ?m ((!) (V' ! k)) g = dot ?m (\<lambda>r. V ! k ! r - d k * ?q r) g"
        using True k by (intro dot_cong) (simp_all add: eV)
      then show ?thesis
        by (simp only: dot_diff_left dot_scale_left)
    qed
    show ?thesis
    proof (cases "l < j")
      case lj: True
      have a: "dot ?m ((!) (V ! k)) (col Q' l) = 0"
      proof -
        have "dot ?m ((!) (V ! k)) (col Q' l) = dot ?m ((!) (V ! k)) (col Q l)"
          using lj by (intro dot_cong) (simp_all add: colQ)
        with Vo [of k l] k lj jk show ?thesis by simp
      qed
      have b: "dot ?m ?q (col Q' l) = 0"
      proof -
        have "dot ?m ?q (col Q' l) = dot ?m (\<lambda>r. (1 / nv) * V ! j ! r) (col Q l)"
          using lj by (intro dot_cong) (simp_all add: colQ)
        also have "\<dots> = (1 / nv) * dot ?m ((!) (V ! j)) (col Q l)"
          by (simp only: dot_scale_left)
        also have "\<dots> = 0"
          using Vo [of j l] jn lj by simp
        finally show ?thesis .
      qed
      show ?thesis
        by (simp add: V'k a b)
    next
      case False
      with l jk have lj: "l = j" by simp
      have c: "dot ?m g (col Q' j) = dot ?m g ?q" for g
        using j big by (intro dot_cong) (simp_all add: col_def eQ)
      have "dot ?m ((!) (V ! k)) ?q = d k"
        by (simp add: d_def dot_commute)
      then show ?thesis
        unfolding lj by (simp add: V'k c qq)
    qed
  qed
  from step Q' R' V' Vm' all Rz' Qz' Vr' Vo' show ?thesis
    unfolding mgs_inv_def by blast
qed

section \<open>What both decompositions establish\<close>

lemma cgs_inv_init: "cgs_inv A p 0 (Matrix (rows_size A) p) (Matrix p (cols_size A))"
  by (simp add: cgs_inv_def has_shape_Matrix elem_Matrix)

lemma cgs_inv_fold:
  "i \<le> cols_size A \<Longrightarrow>
   \<exists>Q R. fold (cgs_column (rows_size A) p A) [0..<i] (Matrix (rows_size A) p, Matrix p (cols_size A))
            = (Q, R) \<and> cgs_inv A p i Q R"
proof (induction i)
  case 0
  show ?case by (simp add: cgs_inv_init)
next
  case (Suc i)
  then obtain Q R where
    f: "fold (cgs_column (rows_size A) p A) [0..<i] (Matrix (rows_size A) p, Matrix p (cols_size A))
          = (Q, R)"
    and inv: "cgs_inv A p i Q R"
    by auto
  from Suc.prems have "i < cols_size A" by simp
  from cgs_inv_step [OF inv this] f show ?case
    by auto
qed

lemma qrCGS_post: "gs_post (field_A q) (field_Q (qrCGS q)) (field_R (qrCGS q))"
proof -
  let ?A = "field_A q"
  let ?p = "min (rows_size ?A) (cols_size ?A)"
  from cgs_inv_fold [of "cols_size ?A" ?A ?p] obtain Q R where
    f: "fold (cgs_column (rows_size ?A) ?p ?A) [0..<cols_size ?A]
          (Matrix (rows_size ?A) ?p, Matrix ?p (cols_size ?A)) = (Q, R)"
    and inv: "cgs_inv ?A ?p (cols_size ?A) Q R"
    by auto
  from f have "field_Q (qrCGS q) = Q" "field_R (qrCGS q) = R"
    by (simp_all add: qrCGS_def Let_def)
  with inv show ?thesis
    by (auto simp: gs_post_def cgs_inv_def min.commute)
qed

lemma mgs_inv_init:
  "mgs_inv A p 0 (Matrix (rows_size A) p) (Matrix p (cols_size A))
     (map (getCol A) [0..<cols_size A])"
  by (simp add: mgs_inv_def has_shape_Matrix elem_Matrix length_getCol nth_getCol)

lemma mgs_inv_fold:
  assumes "p \<le> cols_size A"
  shows "j \<le> p \<Longrightarrow>
   \<exists>Q R V. fold (mgs_step (rows_size A) (cols_size A)) [0..<j]
              (Matrix (rows_size A) p, Matrix p (cols_size A), map (getCol A) [0..<cols_size A])
            = (Q, R, V) \<and> mgs_inv A p j Q R V"
proof (induction j)
  case 0
  show ?case by (simp add: mgs_inv_init)
next
  case (Suc j)
  then obtain Q R V where
    f: "fold (mgs_step (rows_size A) (cols_size A)) [0..<j]
              (Matrix (rows_size A) p, Matrix p (cols_size A), map (getCol A) [0..<cols_size A])
          = (Q, R, V)"
    and inv: "mgs_inv A p j Q R V"
    by auto
  from Suc.prems have "j < p" by simp
  from mgs_inv_step [OF inv this assms] f show ?case
    by auto
qed

lemma qrMGS_post: "gs_post (field_A q) (field_Q (qrMGS q)) (field_R (qrMGS q))"
proof -
  let ?A = "field_A q"
  let ?p = "min (rows_size ?A) (cols_size ?A)"
  have "?p \<le> cols_size ?A" by simp
  from mgs_inv_fold [OF this, of ?p] obtain Q R V where
    f: "fold (mgs_step (rows_size ?A) (cols_size ?A)) [0..<?p]
          (Matrix (rows_size ?A) ?p, Matrix ?p (cols_size ?A), map (getCol ?A) [0..<cols_size ?A])
          = (Q, R, V)"
    and inv: "mgs_inv ?A ?p ?p Q R V"
    by auto
  from f have "field_Q (qrMGS q) = Q" "field_R (qrMGS q) = R"
    by (simp_all add: qrMGS_def Let_def mgs_init)
  with inv show ?thesis
    by (auto simp: gs_post_def mgs_inv_def)
qed

section \<open>The exact arithmetic is one instance\<close>











section \<open>The structure of the decompositions in any arithmetic\<close>























section \<open>No index leaves its range\<close>













section \<open>Consequences of the postcondition\<close>

lemma matrix_eqI:
  fixes M N :: matrix
  assumes M: "has_shape M m n" and N: "has_shape N m n"
    and e: "\<And>i j. i < m \<Longrightarrow> j < n \<Longrightarrow> elem M i j = elem N i j"
  shows "M = N"
proof -
  have "cells M = cells N"
  proof (rule nth_equalityI)
    show "length (cells M) = length (cells N)"
      using M N by (simp add: has_shape_def wf_matrix_def)
    show "cells M ! i = cells N ! i" if "i < length (cells M)" for i
    proof (rule nth_equalityI)
      from that M have i: "i < m" by (simp add: has_shape_def wf_matrix_def)
      with M N show "length (cells M ! i) = length (cells N ! i)"
        by (simp add: has_shape_def wf_matrix_def)
      show "cells M ! i ! j = cells N ! i ! j" if "j < length (cells M ! i)" for j
        using e [of i j] i that M by (simp add: has_shape_def wf_matrix_def elem_def)
    qed
  qed
  with M N show ?thesis
    by (simp add: has_shape_def)
qed

lemma sum_list_upt: "(\<Sum>k\<leftarrow>[0..<n]. f k) = (\<Sum>k<n. f k)" for f :: "nat \<Rightarrow> real"
  by (simp add: interv_sum_list_conv_sum_set_nat atLeast0LessThan)

lemma has_shape_transpose: "has_shape (transpose_m M) (cols_size M) (rows_size M)"
  by (simp add: has_shape_def wf_matrix_def transpose_m_def)

lemma elem_transpose:
  "i < cols_size M \<Longrightarrow> j < rows_size M \<Longrightarrow> elem (transpose_m M) i j = elem M j i"
  by (simp add: transpose_m_def elem_def)

lemma mat_mul_Inr:
  assumes "cols_size M = rows_size N"
  shows "\<exists>P. mat_mul M N = Inr P \<and> has_shape P (rows_size M) (cols_size N)
     \<and> (\<forall>i<rows_size M. \<forall>j<cols_size N. elem P i j = (\<Sum>k<cols_size M. elem M i k * elem N k j))"
  using assms
  by (simp add: mat_mul_def has_shape_def wf_matrix_def sum_list_upt) (simp add: elem_def)

lemma has_shape_identity: "has_shape (identity n) n n"
  by (simp add: has_shape_def wf_matrix_def identity_def)

lemma elem_identity: "i < n \<Longrightarrow> j < n \<Longrightarrow> elem (identity n) i j = (if i = j then 1 else 0)"
  by (simp add: identity_def elem_def)

lemma sum_upper:
  fixes f :: "nat \<Rightarrow> real"
  assumes "k < n" and "\<And>l. k < l \<Longrightarrow> l < n \<Longrightarrow> f l = 0"
  shows "(\<Sum>l<n. f l) = (\<Sum>l<Suc k. f l)"
proof (rule sum.mono_neutral_right)
  show "finite {..<n}" by simp
  show "{..<Suc k} \<subseteq> {..<n}" using assms(1) by auto
  show "\<forall>i\<in>{..<n} - {..<Suc k}. f i = 0" using assms(2) by auto
qed

text \<open>
  In exact arithmetic, a matrix all of whose columns are accepted is factorised: \<open>Q\<^sup>T Q\<close> is
  the identity and \<open>Q R\<close> is \<open>A\<close>.
\<close>

lemma gs_post_full_rank:
  assumes post: "gs_post A Q R" and wf: "wf_matrix A" and nm: "cols_size A \<le> rows_size A"
    and good: "\<And>i. i < cols_size A \<Longrightarrow> tolerance < elem R i i"
  shows "mat_mul (transpose_m Q) Q = Inr (identity (cols_size A))
       \<and> mat_mul Q R = Inr A \<and> upper_triangular R"
proof -
  let ?m = "rows_size A" and ?n = "cols_size A"
  have p: "min ?m ?n = ?n" using nm by simp
  from post have Q: "has_shape Q ?m ?n" and R: "has_shape R ?n ?n"
    and ok: "\<And>k. k < ?n \<Longrightarrow> column_ok A Q R k"
    and tri: "\<And>a b. a < ?n \<Longrightarrow> b < ?n \<Longrightarrow> b < a \<Longrightarrow> elem R a b = 0"
    by (auto simp: gs_post_def p)
  from Q have Qs: "rows_size Q = ?m" "cols_size Q = ?n" by (simp_all add: has_shape_def)
  from R have Rs: "rows_size R = ?n" "cols_size R = ?n" by (simp_all add: has_shape_def)
  have unit: "dot ?m (col Q k) (col Q k) = 1" if "k < ?n" for k
    using ok [OF that] good [OF that] by (simp add: column_ok_def)
  have orth: "dot ?m (col Q j) (col Q l) = 0" if "j < ?n" "l < ?n" "j \<noteq> l" for j l
    using column_ok_orthogonal [of ?n A Q R j l] ok that by simp
  have rec: "elem A r k = (\<Sum>l<?n. elem Q r l * elem R l k)" if r: "r < ?m" and k: "k < ?n" for r k
  proof -
    from ok [OF k] good [OF k] r have "resid A Q R k r = elem R k k * elem Q r k"
      by (simp add: column_ok_def)
    then have "elem A r k = (\<Sum>l<Suc k. elem R l k * elem Q r l)"
      by (simp add: resid_def)
    also have "\<dots> = (\<Sum>l<?n. elem R l k * elem Q r l)"
      using k by (intro sum_upper [symmetric]) (simp_all add: tri)
    finally show ?thesis
      by (simp add: mult.commute)
  qed
  have "mat_mul (transpose_m Q) Q = Inr (identity ?n)"
  proof -
    have "cols_size (transpose_m Q) = rows_size Q"
      by (simp add: transpose_m_def)
    from mat_mul_Inr [OF this] obtain P where
      P: "mat_mul (transpose_m Q) Q = Inr P" and s: "has_shape P ?n ?n"
      and e: "\<And>i j. i < ?n \<Longrightarrow> j < ?n \<Longrightarrow>
                elem P i j = (\<Sum>k<?m. elem (transpose_m Q) i k * elem Q k j)"
      by (auto simp: transpose_m_def Qs)
    have "P = identity ?n"
    proof (rule matrix_eqI [OF s has_shape_identity])
      fix i j assume i: "i < ?n" and j: "j < ?n"
      have "elem P i j = dot ?m (col Q i) (col Q j)"
        using i j by (simp add: e dot_def col_def elem_transpose Qs)
      also have "\<dots> = (if i = j then 1 else 0)"
        using i j by (simp add: unit orth)
      finally show "elem P i j = elem (identity ?n) i j"
        using i j by (simp add: elem_identity)
    qed
    with P show ?thesis by simp
  qed
  moreover have "mat_mul Q R = Inr A"
  proof -
    have "cols_size Q = rows_size R" by (simp add: Qs Rs)
    from mat_mul_Inr [OF this] obtain P where
      P: "mat_mul Q R = Inr P" and s: "has_shape P ?m ?n"
      and e: "\<And>i j. i < ?m \<Longrightarrow> j < ?n \<Longrightarrow> elem P i j = (\<Sum>k<?n. elem Q i k * elem R k j)"
      by (auto simp: Qs Rs)
    have "P = A"
      by (rule matrix_eqI [OF s]) (simp_all add: has_shape_def wf e rec)
    with P show ?thesis by simp
  qed
  moreover have "upper_triangular R"
    by (simp add: upper_triangular_def Rs tri)
  ultimately show ?thesis by blast
qed

text \<open>
  In exact arithmetic, a column that is a linear combination of accepted columns has the
  residual zero, and is rejected.
\<close>

lemma gs_post_dependent:
  assumes post: "gs_post A Q R"
    and im: "i < rows_size A" and "i < cols_size A"
    and good: "\<And>k. k < i \<Longrightarrow> c k \<noteq> 0 \<Longrightarrow> tolerance < elem R k k"
    and dep: "\<And>r. r < rows_size A \<Longrightarrow> elem A r i = (\<Sum>k<i. c k * elem A r k)"
  shows "elem R i i = 0 \<and> (\<forall>r<rows_size A. elem Q r i = 0)"
proof -
  let ?m = "rows_size A" and ?n = "cols_size A"
  let ?p = "min ?m ?n"
  have ip: "i < ?p" using assms(2,3) by simp
  from post have ok: "\<And>k. k < ?p \<Longrightarrow> column_ok A Q R k"
    and tri: "\<And>a b. a < ?p \<Longrightarrow> b < ?n \<Longrightarrow> b < a \<Longrightarrow> elem R a b = 0"
    by (auto simp: gs_post_def)
  define e where "e = (\<lambda>l. (\<Sum>k<i. c k * elem R l k) - elem R l i)"
  let ?w = "resid A Q R i"
  have rec: "elem A r k = (\<Sum>l<i. elem R l k * elem Q r l)"
    if r: "r < ?m" and k: "k < i" and ck: "c k \<noteq> 0" for r k
  proof -
    from k ip have kp: "k < ?p" by simp
    from ok [OF kp] good [OF k ck] r have "resid A Q R k r = elem R k k * elem Q r k"
      by (simp add: column_ok_def)
    then have "elem A r k = (\<Sum>l<Suc k. elem R l k * elem Q r l)"
      by (simp add: resid_def)
    also have "\<dots> = (\<Sum>l<i. elem R l k * elem Q r l)"
      using k ip by (intro sum_upper [symmetric]) (simp_all add: tri)
    finally show ?thesis .
  qed
  have w: "?w r = (\<Sum>l<i. e l * col Q l r)" if r: "r < ?m" for r
  proof -
    have scaled: "c k * elem A r k = c k * (\<Sum>l<i. elem R l k * elem Q r l)" if "k < i" for k
      using rec [OF r that] by (cases "c k = 0") simp_all
    have "elem A r i = (\<Sum>k<i. c k * elem A r k)"
      using r by (rule dep)
    also have "\<dots> = (\<Sum>k<i. c k * (\<Sum>l<i. elem R l k * elem Q r l))"
      by (intro sum.cong refl scaled) simp
    finally have "elem A r i = (\<Sum>k<i. c k * (\<Sum>l<i. elem R l k * elem Q r l))" .
    also have "\<dots> = (\<Sum>k<i. \<Sum>l<i. c k * elem R l k * elem Q r l)"
      by (simp add: sum_distrib_left mult.assoc)
    also have "\<dots> = (\<Sum>l<i. \<Sum>k<i. c k * elem R l k * elem Q r l)"
      by (rule sum.swap)
    also have "\<dots> = (\<Sum>l<i. (\<Sum>k<i. c k * elem R l k) * elem Q r l)"
      by (simp add: sum_distrib_right)
    finally have "elem A r i = (\<Sum>l<i. (\<Sum>k<i. c k * elem R l k) * elem Q r l)" .
    then show ?thesis
      by (simp add: resid_def e_def col_def left_diff_distrib sum_subtractf)
  qed
  have W: "dot ?m ?w (col Q l) = 0" if "l < i" for l
    using ok [OF ip] that by (simp add: column_ok_def)
  have "dot ?m ?w ?w = dot ?m (\<lambda>r. \<Sum>l<i. e l * col Q l r) ?w"
    by (intro dot_cong) (simp_all add: w)
  also have "\<dots> = (\<Sum>l<i. e l * dot ?m (col Q l) ?w)"
    by (simp add: dot_sum_left dot_scale_left)
  also have "\<dots> = 0"
    by (simp add: dot_commute [of ?m _ ?w] W)
  finally have z: "dot ?m ?w ?w = 0" .
  from ok [OF ip] have "elem R i i = 0 \<or> elem R i i = sqrt (dot ?m ?w ?w)"
    by (simp add: column_ok_def)
  with z have R0: "elem R i i = 0" by auto
  with ok [OF ip] have "\<forall>r<?m. elem Q r i = 0"
    by (simp add: column_ok_def)
  with R0 show ?thesis by simp
qed

lemma sum_list_all_zero: "(\<And>x. x \<in> set xs \<Longrightarrow> f x = 0) \<Longrightarrow> (\<Sum>x\<leftarrow>xs. f x) = (0::real)"
  by (induction xs) simp_all

lemma det_cells_upper_triangular:
  "length c = n \<Longrightarrow> (\<And>i. i < n \<Longrightarrow> length (c ! i) = n) \<Longrightarrow>
   (\<And>i j. i < n \<Longrightarrow> j < i \<Longrightarrow> c ! i ! j = 0) \<Longrightarrow>
   det_cells c = (\<Prod>i<n. c ! i ! i)"
proof (induction n arbitrary: c)
  case 0
  then show ?case by simp
next
  case (Suc n)
  from Suc.prems(1) obtain r rs where c: "c = r # rs" and rs: "length rs = n"
    by (cases c) auto
  let ?T = "\<lambda>i. (- 1) ^ i * hd ((r # rs) ! i) * det_cells (map tl (del_nth i (r # rs)))"
  have row: "length ((r # rs) ! i) = Suc n" if "i < Suc n" for i
    using Suc.prems(2) [OF that] c by simp
  have zero: "?T i = 0" if "i \<in> set [Suc 0..<Suc n]" for i
  proof -
    from that have i: "0 < i" "i < Suc n" by auto
    from row [OF i(2)] have "hd ((r # rs) ! i) = (r # rs) ! i ! 0"
      by (intro hd_conv_nth) auto
    also have "\<dots> = 0"
      using Suc.prems(3) [of i 0] i c by simp
    finally show ?thesis by simp
  qed
  have "det_cells c = (\<Sum>i\<leftarrow>[0..<Suc n]. ?T i)"
    by (simp only: c det_cells.simps rs)
  also have "[0..<Suc n] = 0 # [Suc 0..<Suc n]"
    by (simp add: upt_conv_Cons)
  also have "(\<Sum>i\<leftarrow>0 # [Suc 0..<Suc n]. ?T i) = ?T 0 + (\<Sum>i\<leftarrow>[Suc 0..<Suc n]. ?T i)"
    by simp
  also have "(\<Sum>i\<leftarrow>[Suc 0..<Suc n]. ?T i) = 0"
    by (rule sum_list_all_zero) (rule zero)
  finally have d: "det_cells c = hd r * det_cells (map tl rs)"
    by (simp add: del_nth_def)
  have "det_cells (map tl rs) = (\<Prod>i<n. map tl rs ! i ! i)"
  proof (rule Suc.IH)
    show "length (map tl rs) = n" using rs by simp
    show "length (map tl rs ! i) = n" if "i < n" for i
      using that rs row [of "Suc i"] by simp
    show "map tl rs ! i ! j = 0" if "i < n" "j < i" for i j
    proof -
      have "map tl rs ! i ! j = tl (rs ! i) ! j"
        using that rs by simp
      also have "\<dots> = rs ! i ! Suc j"
        using that rs row [of "Suc i"] by (intro nth_tl) simp
      also have "\<dots> = 0"
        using Suc.prems(3) [of "Suc i" "Suc j"] that c by simp
      finally show ?thesis .
    qed
  qed
  also have "\<dots> = (\<Prod>i<n. c ! Suc i ! Suc i)"
  proof (rule prod.cong)
    show "{..<n} = {..<n}" ..
    fix i assume "i \<in> {..<n}"
    then have i: "i < n" by simp
    have "map tl rs ! i ! i = tl (rs ! i) ! i"
      using i rs by simp
    also have "\<dots> = rs ! i ! Suc i"
      using i rs row [of "Suc i"] by (intro nth_tl) simp
    finally show "map tl rs ! i ! i = c ! Suc i ! Suc i"
      by (simp add: c)
  qed
  finally have t: "det_cells (map tl rs) = (\<Prod>i<n. c ! Suc i ! Suc i)" .
  have "hd r = c ! 0 ! 0"
    using row [of 0] c by (cases r) simp_all
  moreover have "(\<Prod>i<Suc n. c ! i ! i) = c ! 0 ! 0 * (\<Prod>i<n. c ! Suc i ! Suc i)"
    by (rule prod.lessThan_Suc_shift)
  ultimately show ?case
    using d t by simp
qed

lemma column_ok_diag_nonneg:
  assumes "column_ok A Q R k"
  shows "0 \<le> elem R k k"
proof (cases "tolerance < elem R k k")
  case True
  have "(0::real) < tolerance" by simp
  with True show ?thesis by linarith
next
  case False
  with assms show ?thesis
    by (simp add: column_ok_def)
qed

lemma gs_post_pseudoInverse:
  fixes A Q R :: matrix
  assumes post: "gs_post A Q R" and nm: "cols_size A \<le> rows_size A"
  shows "\<exists>Rreg R_inv P.
      mat_add R (mat_scale (identity (rows_size R)) (1 / 10 ^ 8)) = Inr Rreg
    \<and> (\<forall>i<cols_size A. \<forall>j<cols_size A.
          elem Rreg i j = elem R i j + (if i = j then 1 / 10 ^ 8 else 0))
    \<and> inverse_m Rreg = Inr R_inv
    \<and> mat_mul R_inv (transpose_m Q) = Inr P"
proof -
  let ?m = "rows_size A" and ?n = "cols_size A"
  have p: "min ?m ?n = ?n" using nm by simp
  from post have Q: "has_shape Q ?m ?n" and R: "has_shape R ?n ?n"
    and ok: "\<And>k. k < ?n \<Longrightarrow> column_ok A Q R k"
    and tri: "\<And>a b. a < ?n \<Longrightarrow> b < ?n \<Longrightarrow> b < a \<Longrightarrow> elem R a b = 0"
    by (auto simp: gs_post_def p)
  from Q have Qs: "rows_size Q = ?m" "cols_size Q = ?n" by (simp_all add: has_shape_def)
  from R have Rs: "rows_size R = ?n" "cols_size R = ?n" by (simp_all add: has_shape_def)
  let ?S = "mat_scale (identity ?n) (1 / 10 ^ 8)"
  define Rreg where "Rreg = \<lparr>rows_size = ?n, cols_size = ?n,
      cells = map (\<lambda>i. map (\<lambda>j. elem R i j + elem ?S i j) [0..<?n]) [0..<?n]\<rparr>"
  have add: "mat_add R ?S = Inr Rreg"
    by (simp add: mat_add_def Rs mat_scale_def identity_def Rreg_def)
  have eS: "elem ?S i j = (if i = j then 1 / 10 ^ 8 else 0)" if "i < ?n" "j < ?n" for i j
    using that by (simp add: mat_scale_def identity_def elem_def)
  have cR: "cells Rreg ! i ! j = elem R i j + (if i = j then 1 / 10 ^ 8 else 0)"
    if "i < ?n" "j < ?n" for i j
  proof -
    have "cells Rreg ! i ! j = elem R i j + elem ?S i j"
      using that by (simp add: Rreg_def)
    with eS [OF that] show ?thesis by simp
  qed
  have "det_cells (cells Rreg) = (\<Prod>i<?n. cells Rreg ! i ! i)"
  proof (rule det_cells_upper_triangular)
    show "length (cells Rreg) = ?n" by (simp add: Rreg_def)
    show "length (cells Rreg ! i) = ?n" if "i < ?n" for i
      using that by (simp add: Rreg_def)
    show "cells Rreg ! i ! j = 0" if "i < ?n" "j < i" for i j
      using that by (simp add: cR tri)
  qed
  also have "\<dots> > 0"
  proof (rule prod_pos)
    fix i assume "i \<in> {..<?n}"
    then have i: "i < ?n" by simp
    from column_ok_diag_nonneg [OF ok [OF i]] show "0 < cells Rreg ! i ! i"
      using i by (simp add: cR)
  qed
  finally have det: "det_cells (cells Rreg) \<noteq> 0" by simp
  then obtain R_inv where inv: "inverse_m Rreg = Inr R_inv"
    and s: "cols_size R_inv = ?n"
    by (simp add: inverse_m_def Rreg_def)
  have "cols_size R_inv = rows_size (transpose_m Q)"
    by (simp add: s transpose_m_def Qs)
  from mat_mul_Inr [OF this] obtain P where "mat_mul R_inv (transpose_m Q) = Inr P"
    by blast
  with add inv cR show ?thesis
    unfolding Rs by (auto simp: elem_def)
qed

section \<open>Decomposing concrete matrices\<close>

lemma sqrt_25: "sqrt 25 = 5"
  using real_sqrt_abs [of 5] by simp

lemmas eval_defs = qrCGS_def qrMGS_def fresh_def two_by_two_def cgs_column_def cgs_project_def
  mgs_step_def mgs_update_def Matrix_def
  dot_loop_def sub_loop_def div_loop_def getCol_def elem_def set_elem_def setCol_def Let_def
  epsilon_def tolerance_def eval_nat_numeral

lemma qrCGS_3344: "qrCGS (fresh (two_by_two 3 3 4 4)) =
   (fresh (two_by_two 3 3 4 4))\<lparr>field_Q := two_by_two (3/5) 0 (4/5) 0,
      field_R := two_by_two 5 5 0 0\<rparr>"
  by (simp add: eval_defs sqrt_25)

lemma qrMGS_3344: "qrMGS (fresh (two_by_two 3 3 4 4)) =
   (fresh (two_by_two 3 3 4 4))\<lparr>field_Q := two_by_two (3/5) 0 (4/5) 0,
      field_R := two_by_two 5 5 0 0\<rparr>"
  by (simp add: eval_defs sqrt_25)








lemma solve_2: "solve (qr (fresh (one_by_one 2))) (one_by_one 2) = Inr (one_by_one 2)"
  unfolding qr_def qrCGS_one_by_one
  by (simp add: solve_def QR_Q_def QR_R_def fresh_def one_by_one_def transpose_m_def mat_mul_def
      inverse_m_def elem_def del_nth_def tolerance_def)

section \<open>The modelled inverse on 2 x 2 matrices\<close>

text \<open>
  A check of the collaborator model: on a 2 x 2 matrix with a non-zero determinant the
  modelled inverse is the familiar one, and it is a two-sided inverse.
\<close>

lemma inverse_m_two_by_two:
  assumes "a * d - b * c \<noteq> 0"
  shows "inverse_m (two_by_two a b c d) =
     Inr (two_by_two (d / (a * d - b * c)) (- b / (a * d - b * c))
                     (- c / (a * d - b * c)) (a / (a * d - b * c)))"
proof -
  have det: "det_cells [[a, b], [c, d]] = a * d - b * c"
    by (simp add: del_nth_def mult.commute)
  have m: "minor_cells [[a, b], [c, d]] 0 0 = [[d]]" "minor_cells [[a, b], [c, d]] 0 1 = [[c]]"
    "minor_cells [[a, b], [c, d]] 1 0 = [[b]]" "minor_cells [[a, b], [c, d]] 1 1 = [[a]]"
    by (simp_all add: minor_cells_def del_nth_def)
  have one: "det_cells [[x]] = x" for x
    by (simp add: del_nth_def)
  have up: "[0..<2] = [0, 1]"
    by (simp add: eval_nat_numeral)
  from assms show ?thesis
    unfolding inverse_m_def two_by_two_def
    by (simp only: matrix.simps det up list.map m one) simp
qed

lemma inverse_m_two_by_two_is_inverse:
  assumes "a * d - b * c \<noteq> 0"
  shows "\<exists>X. inverse_m (two_by_two a b c d) = Inr X
     \<and> mat_mul (two_by_two a b c d) X = Inr (identity 2)
     \<and> mat_mul X (two_by_two a b c d) = Inr (identity 2)"
proof -
  define D where "D = a * d - b * c"
  have D: "D \<noteq> 0" using assms by (simp add: D_def)
  have e: "a * d - b * c = D" by (simp add: D_def)
  have "a * (d / D) + b * (- c / D) = (a * d - b * c) / D"
    by (simp add: diff_divide_distrib)
  then have 1: "a * (d / D) + b * (- c / D) = 1"
    using D by (simp add: e)
  have "c * (- b / D) + d * (a / D) = (a * d - b * c) / D"
    by (simp add: diff_divide_distrib mult.commute)
  then have 2: "c * (- b / D) + d * (a / D) = 1"
    using D by (simp add: e)
  have 3: "a * (- b / D) + b * (a / D) = 0" "c * (d / D) + d * (- c / D) = 0"
    by (simp_all add: mult.commute)
  have up: "[0..<2] = [0, 1]"
    by (simp add: eval_nat_numeral)
  have r: "mat_mul (two_by_two a b c d) (two_by_two (d / D) (- b / D) (- c / D) (a / D)) = Inr (identity 2)"
    unfolding mat_mul_def two_by_two_def identity_def elem_def
    using 1 2 3 by (simp add: up)
  have l: "mat_mul (two_by_two (d / D) (- b / D) (- c / D) (a / D)) (two_by_two a b c d) = Inr (identity 2)"
    unfolding mat_mul_def two_by_two_def identity_def elem_def
    using 1 2 3 by (simp add: up mult.commute add.commute)
  show ?thesis
    unfolding inverse_m_two_by_two [OF assms] e using r l by simp
qed

section \<open>What solve returns\<close>

text \<open>
  Whenever \<^verbatim>\<open>solve\<close> returns, it returns \<open>Q\<^sup>T b\<close>. For the 3 x 3 identity matrix both
  factors are the identity, so there the value returned is \<open>b\<close> itself.
\<close>

lemma solve_returns_Qt_b:
  "solve q b = Inr x \<Longrightarrow> mat_mul (transpose_m (QR_Q q)) b = Inr x"
  by (auto simp: solve_def split: sum.splits)

lemma qrCGS_identity_3:
  "qrCGS (fresh (identity 3)) = (fresh (identity 3))\<lparr>field_Q := identity 3, field_R := identity 3\<rparr>"
  by (simp add: qrCGS_def fresh_def cgs_column_def cgs_project_def Matrix_def identity_def
        dot_loop_def sub_loop_def div_loop_def getCol_def elem_def set_elem_def setCol_def Let_def
        tolerance_def eval_nat_numeral)

lemma det_cells_identity_3: "det_cells (cells (identity 3)) = 1"
  by (simp add: identity_def del_nth_def eval_nat_numeral)

lemma solve_identity_3:
  assumes "wf_matrix b" and "rows_size b = 3"
  shows "solve (qr (fresh (identity 3))) b = Inr b"
proof -
  have c: "cols_size (transpose_m (identity 3)) = rows_size b"
    using assms by (simp add: transpose_m_def identity_def)
  from mat_mul_Inr [OF c] obtain P where
    P: "mat_mul (transpose_m (identity 3)) b = Inr P"
    and s: "has_shape P 3 (cols_size b)"
    and e: "\<And>i j. i < 3 \<Longrightarrow> j < cols_size b \<Longrightarrow>
              elem P i j = (\<Sum>k<3. elem (transpose_m (identity 3)) i k * elem b k j)"
    by (auto simp: transpose_m_def identity_def)
  have "P = b"
  proof (rule matrix_eqI [OF s])
    show "has_shape b 3 (cols_size b)"
      using assms by (simp add: has_shape_def)
    fix i j :: nat assume i: "i < 3" and j: "j < cols_size b"
    have sz: "cols_size (identity 3) = 3" "rows_size (identity 3) = 3"
      by (simp_all add: identity_def)
    have t: "elem (transpose_m (identity 3)) i k = (if i = k then 1 else 0)" if "k < 3" for k
    proof -
      have "elem (transpose_m (identity 3)) i k = elem (identity 3) k i"
        using that i by (intro elem_transpose) (simp_all only: sz)
      with that i show ?thesis
        by (auto simp: elem_identity)
    qed
    have "elem P i j = (\<Sum>k<3. (if i = k then 1 else 0) * elem b k j)"
      using i j by (simp add: e t)
    also have "\<dots> = (\<Sum>k<3. if k = i then elem b i j else 0)"
      by (intro sum.cong) auto
    also have "\<dots> = elem b i j"
      using i by simp
    finally show "elem P i j = elem b i j" .
  qed
  moreover have "\<exists>X. inverse_m (identity 3) = Inr X"
    using det_cells_identity_3 by (simp add: inverse_m_def) (simp add: identity_def)
  ultimately show ?thesis
    using P unfolding qr_def qrCGS_identity_3
    by (auto simp: solve_def QR_Q_def QR_R_def)
qed

section \<open>Differentiating by an unknown the expression does not mention\<close>

lemma evaluate_in_exact: "evaluate_in exact_operations s f = evaluate s f"
  by (induction f) (simp_all add: exact_operations_def)

lemma evaluate_in_partial:
  "evaluate_in partial_operations (\<lambda>v. Some (s v)) f = Some x \<Longrightarrow> evaluate s f = x"
  by (induction f arbitrary: x)
     (auto simp: partial_operations_def lift2_def split: option.splits if_splits)





section \<open>Claims\<close>

text \<open>
  Doubles are modelled by the reals. What is stated about the two decompositions in C1 and C3
  is stated of their transcription in an arbitrary arithmetic, so it holds however the
  operations on doubles round, overflow or produce NaN; the transcription in exact arithmetic
  is the instance \<open>exact\<close>. The identities of exact arithmetic that make the columns of \<open>Q\<close>
  orthonormal and \<open>Q R\<close> equal to \<open>A\<close> (\<open>gs_post_full_rank\<close> above) do not carry over to
  an arithmetic that rounds, and are not part of these statements. The inputs of the
  counterexamples and witnesses are small integers and powers of two, on which every
  operation of the decompositions is exact in double arithmetic too.
\<close>




text \<open>
  C2. The claim: \<^verbatim>\<open>solve(b)\<close> returns the least-squares solution of \<open>A x = b\<close>, obtained by
  solving \<open>R x = Q\<^sup>T b\<close>. The code evaluates \<^verbatim>\<open>R().inverse()\<close> and discards it: what it
  returns is \<open>Q\<^sup>T b\<close>. For \<open>A = [[2]]\<close> (so \<open>Q = [[1]]\<close>, \<open>R = [[2]]\<close>) and \<open>b = [[2]]\<close> it
  returns \<open>x = [[2]]\<close>, for which \<open>R x = A x = [[4]]\<close> is not \<open>Q\<^sup>T b = b = [[2]]\<close>, whereas
  \<open>x = [[1]]\<close> solves the system exactly. (For \<open>A = I\<^sub>3\<close> the value returned is \<open>b\<close>, the
  solution, because there \<open>R\<close> is the identity.)
\<close>

theorem C2_solve_returns_Qt_b:
  "QR_Q (qr (fresh (one_by_one 2))) = one_by_one 1
   \<and> QR_R (qr (fresh (one_by_one 2))) = one_by_one 2
   \<and> solve (qr (fresh (one_by_one 2))) (one_by_one 2) = Inr (one_by_one 2)
   \<and> mat_mul (one_by_one 2) (one_by_one 2) = Inr (one_by_one 4)
   \<and> mat_mul (one_by_one 2) (one_by_one 1) = Inr (one_by_one 2)"
  unfolding qr_def qrCGS_one_by_one
  by (simp add: solve_def QR_Q_def QR_R_def fresh_def one_by_one_def transpose_m_def mat_mul_def
      inverse_m_def elem_def del_nth_def tolerance_def)




text \<open>
  C4. On an object decomposed by classical or modified Gram-Schmidt from a matrix with at
  least as many rows as columns (so that \<open>R\<close> is a square, triangular factor),
  \<^verbatim>\<open>pseudoInverse()\<close> adds 1e-8 times the identity to \<open>R\<close>, inverts the sum and returns the
  product of that inverse with \<open>Q\<^sup>T\<close>; no step faults, however many diagonal entries of \<open>R\<close>
  are zero or small: the regularised factor is upper triangular with a diagonal of at least
  1e-8, hence not singular.
\<close>

theorem C4_pseudoInverse_regularises:
  assumes d: "d = qrCGS \<or> d = qrMGS"
    and nm: "cols_size (QR_A q) \<le> rows_size (QR_A q)"
  shows "\<exists>Rreg R_inv P.
      mat_add (QR_R (d q)) (mat_scale (identity (rows_size (QR_R (d q)))) (1 / 10 ^ 8)) = Inr Rreg
    \<and> (\<forall>i<cols_size (QR_A q). \<forall>j<cols_size (QR_A q).
          elem Rreg i j = elem (QR_R (d q)) i j + (if i = j then 1 / 10 ^ 8 else 0))
    \<and> inverse_m Rreg = Inr R_inv
    \<and> mat_mul R_inv (transpose_m (QR_Q (d q))) = Inr P
    \<and> pseudoInverse (d q) = Inr P"
proof -
  from d have post: "gs_post (field_A q) (field_Q (d q)) (field_R (d q))"
    by (auto simp: qrCGS_post qrMGS_post)
  from gs_post_pseudoInverse [OF post] nm obtain Rreg R_inv P where
    a: "mat_add (field_R (d q)) (mat_scale (identity (rows_size (field_R (d q)))) (1 / 10 ^ 8)) = Inr Rreg"
    and e: "\<forall>i<cols_size (field_A q). \<forall>j<cols_size (field_A q).
          elem Rreg i j = elem (field_R (d q)) i j + (if i = j then 1 / 10 ^ 8 else 0)"
    and i: "inverse_m Rreg = Inr R_inv"
    and m: "mat_mul R_inv (transpose_m (field_Q (d q))) = Inr P"
    unfolding QR_A_def by blast
  from a i m have "pseudoInverse (d q) = Inr P"
    by (simp add: pseudoInverse_def)
  with a e i m show ?thesis
    unfolding QR_A_def QR_Q_def QR_R_def by blast
qed

theorem C4_pseudoInverse_regularises_witness:
  "cols_size (two_by_two 3 3 4 4) \<le> rows_size (two_by_two 3 3 4 4)
   \<and> QR_R (qrCGS (fresh (two_by_two 3 3 4 4))) = two_by_two 5 5 0 0
   \<and> inverse_m (two_by_two 5 5 0 0) = Inl matrix_error
   \<and> isl (solve (qrCGS (fresh (two_by_two 3 3 4 4))) (two_by_two 1 0 0 1))
   \<and> \<not> isl (pseudoInverse (qrCGS (fresh (two_by_two 3 3 4 4))))
   \<and> \<not> isl (pseudoInverse (qrMGS (fresh (two_by_two 3 3 4 4))))"
proof -
  let ?A = "two_by_two 3 3 4 4"
  have nm: "cols_size (QR_A (fresh ?A)) \<le> rows_size (QR_A (fresh ?A))"
    by (simp add: QR_A_def fresh_def)  (simp add: two_by_two_def)
  have R: "QR_R (qrCGS (fresh ?A)) = two_by_two 5 5 0 0"
    unfolding qrCGS_3344 by (simp add: QR_R_def)
  have sing: "inverse_m (two_by_two 5 5 0 0) = Inl matrix_error"
    by (simp add: inverse_m_def two_by_two_def del_nth_def eval_nat_numeral)
  have s: "isl (solve (qrCGS (fresh ?A)) (two_by_two 1 0 0 1))"
    using sing R unfolding qrCGS_3344
    by (simp add: solve_def QR_R_def QR_Q_def mat_mul_def transpose_m_def two_by_two_def)
  from C4_pseudoInverse_regularises [of qrCGS "fresh ?A", OF _ nm]
       C4_pseudoInverse_regularises [of qrMGS "fresh ?A", OF _ nm]
  have "\<not> isl (pseudoInverse (qrCGS (fresh ?A)))" "\<not> isl (pseudoInverse (qrMGS (fresh ?A)))"
    by auto
  with nm R sing s show ?thesis
    by (simp add: QR_A_def fresh_def)
qed

text \<open>
  C5. Constructing a QR decomposition from a matrix with zero rows or zero columns fails with
  the fault \<^verbatim>\<open>std::runtime_error("Matrix should be: rows > 0 && cols > 0")\<close>, the
  invalid-argument fault of this class; constructing from a matrix with at least one row and
  one column succeeds and stores the matrix. In particular construction from the 1 x 1 zero
  matrix succeeds, and decomposing the constructed object (with \<^verbatim>\<open>qr()\<close>, that is classical
  Gram-Schmidt, and likewise with modified Gram-Schmidt) yields \<open>R(0,0) = 0\<close>.
\<close>

theorem C5_construction_checks_the_shape:
  "(rows_size A0 = 0 \<or> cols_size A0 = 0 \<longrightarrow>
      QR_new A0 = Inl (runtime_error ''Matrix should be: rows > 0 && cols > 0''))
   \<and> (0 < rows_size A0 \<and> 0 < cols_size A0 \<longrightarrow>
      (\<exists>q. QR_new A0 = Inr q \<and> QR_A q = A0))
   \<and> QR_new (Matrix 1 1) = Inr (fresh (Matrix 1 1))
   \<and> elem (QR_R (qr (fresh (Matrix 1 1)))) 0 0 = 0
   \<and> elem (QR_R (qrMGS (fresh (Matrix 1 1)))) 0 0 = 0"
proof -
  have "elem (QR_R (qr (fresh (Matrix 1 1)))) 0 0 = 0"
    unfolding Matrix_1_1 qr_def qrCGS_one_by_one
    by (simp add: QR_R_def one_by_one_def elem_def)
  moreover have "elem (QR_R (qrMGS (fresh (Matrix 1 1)))) 0 0 = 0"
    unfolding Matrix_1_1 qrMGS_one_by_one
    by (simp add: QR_R_def one_by_one_def elem_def)
  moreover have "QR_new (Matrix 1 1) = Inr (fresh (Matrix 1 1))"
    by (simp add: QR_new_fresh Matrix_def)
  ultimately show ?thesis
    by (auto simp: QR_new_def QR_A_def)
qed

theorem C5_construction_checks_the_shape_witness:
  "QR_new (Matrix 0 3) = Inl (runtime_error ''Matrix should be: rows > 0 && cols > 0'')
   \<and> QR_new (Matrix 3 0) = Inl (runtime_error ''Matrix should be: rows > 0 && cols > 0'')
   \<and> (\<exists>q. QR_new (Matrix 2 3) = Inr q \<and> QR_A q = Matrix 2 3)"
  using C5_construction_checks_the_shape [of "Matrix 0 3"]
        C5_construction_checks_the_shape [of "Matrix 3 0"]
        C5_construction_checks_the_shape [of "Matrix 2 3"]
  by (simp add: Matrix_def)




text \<open>
  C7. \<^verbatim>\<open>clone()\<close> on a constraint residual always throws
  \<^verbatim>\<open>std::runtime_error("Not implemented")\<close>; it never returns a copy. None of the ten
  derived classes declares a \<^verbatim>\<open>clone\<close> of its own, so this is the member every residual has.
\<close>

theorem C7_clone_is_not_implemented:
  "ErrorFunctions_clone r = Inl (thrown (runtime_error ''Not implemented''))"
  by (simp add: ErrorFunctions_clone_def)

text \<open>
  C8, as stated: invoking one of the strategies \<^verbatim>\<open>qrIGS\<close>, \<^verbatim>\<open>qrBGS\<close>, \<^verbatim>\<open>qrRGS\<close>,
  \<^verbatim>\<open>qrCGSP\<close>, \<^verbatim>\<open>qrHouseholder\<close>, \<^verbatim>\<open>qrGivens\<close> surfaces an explicit fault. On the object
  constructed from the 2 x 2 identity matrix each of the six returns normally.
\<close>

theorem C8_stub_strategies_counterexample:
  "\<not> isl (qrIGS (fresh (identity 2))) \<and> \<not> isl (qrBGS (fresh (identity 2)))
   \<and> \<not> isl (qrRGS (fresh (identity 2))) \<and> \<not> isl (qrCGSP (fresh (identity 2)))
   \<and> \<not> isl (qrHouseholder (fresh (identity 2))) \<and> \<not> isl (qrGivens (fresh (identity 2)))"
  by (simp add: qrIGS_def qrBGS_def qrRGS_def qrCGSP_def qrHouseholder_def qrGivens_def)

text \<open>
  C8, amended: each of the six strategies returns normally, raising no fault, and leaves the
  object (\<open>A\<close>, \<open>Q\<close> and \<open>R\<close>) exactly as it was.
\<close>

theorem C8_stub_strategies_do_nothing:
  "qrIGS q = Inr q \<and> qrBGS q = Inr q \<and> qrRGS q = Inr q
   \<and> qrCGSP q = Inr q \<and> qrHouseholder q = Inr q \<and> qrGivens q = Inr q"
  by (simp add: qrIGS_def qrBGS_def qrRGS_def qrCGSP_def qrHouseholder_def qrGivens_def)

text \<open>
  C9. \<^verbatim>\<open>PointPointDistanceError\<close> over the unknowns \<open>x1, y1, x2, y2\<close> with target \<open>d\<close>
  evaluates to \<open>sqrt((x2-x1)^2 + (y2-y1)^2) - d\<close>. With target 1 and the points (0,0) and
  (3,4) it evaluates to 4, and \<^verbatim>\<open>PointOnPointError\<close>, the same residual with target 0, evaluates
  to 0 on the coincident points (2,2) and (2,2).
\<close>

theorem C9_point_point_distance:
  "ErrorFunctions_evaluate (PointPointDistanceError [x1, y1, x2, y2] d) s
     = Inr (sqrt ((s x2 - s x1)\<^sup>2 + (s y2 - s y1)\<^sup>2) - d)
   \<and> ErrorFunctions_evaluate (PointPointDistanceError [0, 1, 2, 3] 1) (\<lambda>v. [0, 0, 3, 4] ! v)
     = Inr 4
   \<and> PointOnPointError [0, 1, 2, 3] = PointPointDistanceError [0, 1, 2, 3] 0
   \<and> ErrorFunctions_evaluate (PointOnPointError [0, 1, 2, 3]) (\<lambda>v. [2, 2, 2, 2] ! v) = Inr 0"
  by (simp add: ErrorFunctions_evaluate_def ErrorFunctions_new_def PointOnPointError_def
        power2_eq_square sqrt_25)

text \<open>
  C10. No call on a constructed object modifies the stored input matrix: the decomposition
  methods (the six with an empty body included) write only \<open>Q\<close> and \<open>R\<close>, \<^verbatim>\<open>solve\<close>,
  \<^verbatim>\<open>pseudoInverse\<close> and the accessors modify nothing, so after any sequence of calls \<^verbatim>\<open>A()\<close>
  returns the matrix the object was constructed from.
\<close>

theorem C10_calls_keep_the_input_matrix:
  assumes "QR_new A0 = Inr q"
  shows "QR_A (fold invoke calls q) = A0 \<and> QR_A (qrCGS q) = A0 \<and> QR_A (qrMGS q) = A0"
proof -
  from assms have "field_A q = A0"
    by (auto simp: QR_new_def split: if_splits)
  then show ?thesis
    by (simp add: QR_A_def fold_invoke_field_A qrCGS_field_A qrMGS_field_A)
qed

theorem C10_calls_keep_the_input_matrix_witness:
  "QR_new (identity 2) = Inr (fresh (identity 2))
   \<and> QR_A (fold invoke
        [call_qrMGS, call_solve (identity 2), call_qrGivens, call_pseudoInverse, call_qr, call_R]
        (fresh (identity 2))) = identity 2"
proof -
  have h: "QR_new (identity 2) = Inr (fresh (identity 2))"
    by (simp add: QR_new_fresh identity_def)
  from h C10_calls_keep_the_input_matrix [OF h] show ?thesis
    by blast
qed

end
